theory Spec2Isabelle
  imports Main "HOL-Library.Countable" "HOL-Library.Code_Target_Nat"
begin

section \<open>The forking blockchain store (ForkBlockchain.ts)\<close>

text \<open>
  A shallow embedding of the class \<^verbatim>\<open>ForkBlockchain\<close>. Its five maps and the latest
  block number are a record that every method takes and returns; a method that throws
  returns \<open>Inl\<close> of the error together with the store as the throw left it. The
  constructor's arguments and the libraries the class calls (the JSON-RPC client, the
  hash methods of \<^verbatim>\<open>Block\<close> and \<^verbatim>\<open>Transaction\<close>) are the record \<open>env\<close>.

  Numbers: \<^verbatim>\<open>BN\<close> values and block heights are natural numbers. Heights are taken
  inside the range of safe JavaScript integers, where \<^verbatim>\<open>BN.toNumber\<close> and
  \<^verbatim>\<open>bufferToInt\<close> are the identity. A hash is the number its bytes spell;
  \<^verbatim>\<open>bufferToHex\<close> is one-to-one and is left out.
\<close>

subsection \<open>Data\<close>

type_synonym hash = nat

text \<open>A transaction is opaque to the store but for its hash: its signed payload.\<close>

datatype transaction = Transaction (raw: nat)

record blockHeader =
  number :: nat
  parentHash :: hash
  difficulty :: nat

record block =
  header :: blockHeader
  transactions :: "transaction list"

text \<open>The records of the JSON-RPC client; a \<^verbatim>\<open>null\<close> field is \<open>None\<close>.\<close>

record rpcTransaction =
  rpcTxHash :: hash
  rpcTxBlockHash :: "hash option"
  rpcTxBlockNumber :: "nat option"
  rpcTxInput :: nat

record rpcBlockWithTransactions =
  rpcHash :: "hash option"
  rpcNumber :: "nat option"
  rpcParentHash :: hash
  rpcDifficulty :: nat
  rpcTotalDifficulty :: nat
  rpcTransactions :: "rpcTransaction list"

text \<open>
  The errors of the class are \<^verbatim>\<open>new Error(message)\<close>; a failure of the upstream
  transport is whatever the client throws.
\<close>

datatype error = Error string | UpstreamError

abbreviation InvalidBlockNumber :: error where
  "InvalidBlockNumber \<equiv> Error ''Invalid block number''"

abbreviation InvalidParentHash :: error where
  "InvalidParentHash \<equiv> Error ''Invalid parent hash''"

abbreviation BlockNotFound :: error where
  "BlockNotFound \<equiv> Error ''Block not found''"

abbreviation CannotDeleteRemote :: error where
  "CannotDeleteRemote \<equiv> Error ''Cannot delete remote block''"

abbreviation InvalidBlock :: error where
  "InvalidBlock \<equiv> Error ''Invalid block''"

abbreviation TransactionNotFound :: error where
  "TransactionNotFound \<equiv> Error ''Transaction not found''"

abbreviation ShouldNeverHappen :: error where
  "ShouldNeverHappen \<equiv> Error ''This should never happen''"

text \<open>The requests the store sends upstream, in the order it sends them.\<close>

datatype rpcCall =
  CallGetBlockByHash hash
  | CallGetBlockByNumber nat
  | CallGetTransactionByHash hash

text \<open>
  What a call of the client comes back with: the decoded result (\<open>None\<close> for
  \<^verbatim>\<open>null\<close>), or a failure of the transport or of the decoding, which the client
  throws and the store lets through.
\<close>

datatype 'a rpcResult = RpcFailure | RpcResult 'a

record jsonRpcClient =
  getBlockByHash :: "hash \<Rightarrow> rpcBlockWithTransactions option rpcResult"
  getBlockByNumber :: "nat \<Rightarrow> rpcBlockWithTransactions option rpcResult"
  getTransactionByHash :: "hash \<Rightarrow> rpcTransaction option rpcResult"

record env =
  jsonRpcClient :: jsonRpcClient
  forkBlockNumber :: nat
  blockHash :: "block \<Rightarrow> hash"
  txHash :: "transaction \<Rightarrow> hash"

text \<open>
  The private fields of the class, without their underscore; \<open>txByHash\<close> is
  \<^verbatim>\<open>_transactions\<close>. \<open>upstreamCalls\<close> is not a field of the class: it records the
  awaited calls of \<^verbatim>\<open>_jsonRpcClient\<close>.
\<close>

record forkBlockchain =
  blocksByNumber :: "nat \<rightharpoonup> block"
  blocksByHash :: "hash \<rightharpoonup> block"
  totalDifficultyByBlockHash :: "hash \<rightharpoonup> nat"
  txByHash :: "hash \<rightharpoonup> transaction"
  transactionToBlock :: "hash \<rightharpoonup> block"
  latestBlockNumber :: nat
  upstreamCalls :: "rpcCall list"

type_synonym 'a outcome = "(error + 'a) \<times> forkBlockchain"

text \<open>The field initialisers: empty maps, and the latest block is the fork block.\<close>

definition newForkBlockchain :: "env \<Rightarrow> forkBlockchain" where
  "newForkBlockchain env =
     \<lparr>blocksByNumber = Map.empty, blocksByHash = Map.empty,
      totalDifficultyByBlockHash = Map.empty, txByHash = Map.empty,
      transactionToBlock = Map.empty, latestBlockNumber = forkBlockNumber env,
      upstreamCalls = []\<rparr>"

subsection \<open>Conversion of upstream records\<close>

text \<open>
  Modelled from the spec: \<^verbatim>\<open>rpcToTxData\<close>, \<^verbatim>\<open>rpcToBlockData\<close> and the constructors
  of \<^verbatim>\<open>Transaction\<close> and \<^verbatim>\<open>Block\<close> are not among the sources. By the spec the local
  copy of a remote block equals the upstream block (I5) and carries its embedded
  transactions: the block built from a record has the record's number, parent hash,
  difficulty and transactions. A \<^verbatim>\<open>null\<close> number leaves the header's number at its
  default, zero.
\<close>

definition rpcToTx :: "rpcTransaction \<Rightarrow> transaction" where
  "rpcToTx r = Transaction (rpcTxInput r)"

definition rpcToBlock :: "rpcBlockWithTransactions \<Rightarrow> block" where
  "rpcToBlock r =
     \<lparr>header = \<lparr>number = (case rpcNumber r of None \<Rightarrow> 0 | Some n \<Rightarrow> n),
                 parentHash = rpcParentHash r, difficulty = rpcDifficulty r\<rparr>,
      transactions = map rpcToTx (rpcTransactions r)\<rparr>"

subsection \<open>Ingestion\<close>

text \<open>\<^verbatim>\<open>_processTransactions\<close>: the loop over the block's transactions.\<close>

fun indexTransactions ::
  "env \<Rightarrow> block \<Rightarrow> transaction list \<Rightarrow> forkBlockchain \<Rightarrow> forkBlockchain" where
  "indexTransactions env blk [] s = s"
| "indexTransactions env blk (t # ts) s =
     indexTransactions env blk ts
       (s\<lparr>txByHash := (txByHash s)(txHash env t \<mapsto> t),
          transactionToBlock := (transactionToBlock s)(txHash env t \<mapsto> blk)\<rparr>)"

definition processTransactions :: "env \<Rightarrow> block \<Rightarrow> forkBlockchain \<Rightarrow> forkBlockchain" where
  "processTransactions env blk s = indexTransactions env blk (transactions blk) s"

definition processRemoteBlock ::
  "env \<Rightarrow> rpcBlockWithTransactions option \<Rightarrow> forkBlockchain \<Rightarrow> block outcome" where
  "processRemoteBlock env rpcBlock s =
     (case rpcBlock of
        None \<Rightarrow> (Inl BlockNotFound, s)
      | Some r \<Rightarrow>
          (case rpcHash r of
             None \<Rightarrow> (Inl BlockNotFound, s)
           | Some h \<Rightarrow>
               (case rpcNumber r of
                  None \<Rightarrow> (Inl BlockNotFound, s)
                | Some n \<Rightarrow>
                    if n > forkBlockNumber env then (Inl BlockNotFound, s)
                    else
                      let blk = rpcToBlock r;
                          s1 = s\<lparr>blocksByNumber := (blocksByNumber s)(n \<mapsto> blk)\<rparr>;
                          s2 = s1\<lparr>blocksByHash := (blocksByHash s1)(h \<mapsto> blk)\<rparr>;
                          s3 = s2\<lparr>totalDifficultyByBlockHash :=
                                   (totalDifficultyByBlockHash s2)(h \<mapsto> rpcTotalDifficulty r)\<rparr>
                      in (Inr blk, processTransactions env blk s3))))"

definition processRemoteTransaction ::
  "env \<Rightarrow> rpcTransaction option \<Rightarrow> forkBlockchain \<Rightarrow> transaction outcome" where
  "processRemoteTransaction env rpcTx s =
     (case rpcTx of
        None \<Rightarrow> (Inl TransactionNotFound, s)
      | Some r \<Rightarrow>
          (case rpcTxBlockNumber r of
             None \<Rightarrow> (Inl TransactionNotFound, s)
           | Some n \<Rightarrow>
               if n > forkBlockNumber env then (Inl TransactionNotFound, s)
               else
                 let tx = rpcToTx r
                 in (Inr tx, s\<lparr>txByHash := (txByHash s)(rpcTxHash r \<mapsto> tx)\<rparr>)))"

subsection \<open>Lookups\<close>

definition callUpstream :: "rpcCall \<Rightarrow> forkBlockchain \<Rightarrow> forkBlockchain" where
  "callUpstream c s = s\<lparr>upstreamCalls := upstreamCalls s @ [c]\<rparr>"

definition priv_getBlockByHash :: "env \<Rightarrow> hash \<Rightarrow> forkBlockchain \<Rightarrow> block outcome" where
  "priv_getBlockByHash env h s =
     (case blocksByHash s h of
        Some blk \<Rightarrow> (Inr blk, s)
      | None \<Rightarrow>
          (case getBlockByHash (jsonRpcClient env) h of
             RpcFailure \<Rightarrow> (Inl UpstreamError, callUpstream (CallGetBlockByHash h) s)
           | RpcResult rpcBlock \<Rightarrow>
               processRemoteBlock env rpcBlock (callUpstream (CallGetBlockByHash h) s)))"

definition priv_getBlockByNumber :: "env \<Rightarrow> nat \<Rightarrow> forkBlockchain \<Rightarrow> block outcome" where
  "priv_getBlockByNumber env n s =
     (if n > latestBlockNumber s then (Inl BlockNotFound, s)
      else
        (case blocksByNumber s n of
           Some blk \<Rightarrow> (Inr blk, s)
         | None \<Rightarrow>
             (case getBlockByNumber (jsonRpcClient env) n of
                RpcFailure \<Rightarrow> (Inl UpstreamError, callUpstream (CallGetBlockByNumber n) s)
              | RpcResult rpcBlock \<Rightarrow>
                  processRemoteBlock env rpcBlock (callUpstream (CallGetBlockByNumber n) s))))"

text \<open>The argument of \<^verbatim>\<open>getBlock\<close>: a \<^verbatim>\<open>Buffer\<close> is a hash, anything else a number.\<close>

datatype blockHashOrNumber = BlockHash hash | BlockNumber nat

definition getBlock :: "env \<Rightarrow> blockHashOrNumber \<Rightarrow> forkBlockchain \<Rightarrow> block outcome" where
  "getBlock env k s =
     (case k of
        BlockHash h \<Rightarrow> priv_getBlockByHash env h s
      | BlockNumber n \<Rightarrow> priv_getBlockByNumber env n s)"

definition getLatestBlock :: "env \<Rightarrow> forkBlockchain \<Rightarrow> block outcome" where
  "getLatestBlock env s = getBlock env (BlockNumber (latestBlockNumber s)) s"

definition getTransaction :: "env \<Rightarrow> hash \<Rightarrow> forkBlockchain \<Rightarrow> transaction outcome" where
  "getTransaction env h s =
     (case txByHash s h of
        Some tx \<Rightarrow> (Inr tx, s)
      | None \<Rightarrow>
          (case getTransactionByHash (jsonRpcClient env) h of
             RpcFailure \<Rightarrow> (Inl UpstreamError, callUpstream (CallGetTransactionByHash h) s)
           | RpcResult remote \<Rightarrow>
               processRemoteTransaction env remote
                 (callUpstream (CallGetTransactionByHash h) s)))"

definition getBlockTotalDifficulty :: "env \<Rightarrow> hash \<Rightarrow> forkBlockchain \<Rightarrow> nat outcome" where
  "getBlockTotalDifficulty env h s =
     (case totalDifficultyByBlockHash s h of
        Some td \<Rightarrow> (Inr td, s)
      | None \<Rightarrow>
          (case getBlock env (BlockHash h) s of
             (Inl e, s1) \<Rightarrow> (Inl e, s1)
           | (Inr blk, s1) \<Rightarrow>
               (case totalDifficultyByBlockHash s1 h of
                  None \<Rightarrow> (Inl ShouldNeverHappen, s1)
                | Some td \<Rightarrow> (Inr td, s1))))"

definition getBlockByTransactionHash ::
  "env \<Rightarrow> hash \<Rightarrow> forkBlockchain \<Rightarrow> block outcome" where
  "getBlockByTransactionHash env h s =
     (case transactionToBlock s h of
        Some blk \<Rightarrow> (Inr blk, s)
      | None \<Rightarrow>
          (case getTransactionByHash (jsonRpcClient env) h of
             RpcFailure \<Rightarrow> (Inl UpstreamError, callUpstream (CallGetTransactionByHash h) s)
           | RpcResult remote \<Rightarrow>
               (case processRemoteTransaction env remote
                       (callUpstream (CallGetTransactionByHash h) s) of
                  (Inl e, s1) \<Rightarrow> (Inl e, s1)
                | (Inr tx, s1) \<Rightarrow>
                    (case (case remote of None \<Rightarrow> None | Some r \<Rightarrow> rpcTxBlockHash r) of
                       None \<Rightarrow> (Inl TransactionNotFound, s1)
                     | Some bh \<Rightarrow>
                         (case getBlock env (BlockHash bh) s1 of
                            (Inl e, s2) \<Rightarrow> (Inl e, s2)
                          | (Inr blk, s2) \<Rightarrow>
                              (case transactionToBlock s2 h of
                                 None \<Rightarrow> (Inl TransactionNotFound, s2)
                               | Some found \<Rightarrow> (Inr found, s2)))))))"

subsection \<open>Append\<close>

definition computeTotalDifficulty :: "env \<Rightarrow> block \<Rightarrow> forkBlockchain \<Rightarrow> nat outcome" where
  "computeTotalDifficulty env blk s =
     (let blockNumber = number (header blk) in
      if blockNumber = 0 then (Inr (difficulty (header blk)), s)
      else
        (case (case blocksByNumber s (blockNumber - 1) of
                 Some p \<Rightarrow> (Inr p, s)
               | None \<Rightarrow> getBlock env (BlockNumber (blockNumber - 1)) s) of
           (Inl e, s1) \<Rightarrow> (Inl e, s1)
         | (Inr parentBlock, s1) \<Rightarrow>
             (case totalDifficultyByBlockHash s1 (blockHash env parentBlock) of
                None \<Rightarrow> (Inl ShouldNeverHappen, s1)
              | Some parentTD \<Rightarrow> (Inr (parentTD + difficulty (header blk)), s1))))"

definition putBlock :: "env \<Rightarrow> block \<Rightarrow> forkBlockchain \<Rightarrow> block outcome" where
  "putBlock env blk s =
     (let blockNumber = number (header blk) in
      if blockNumber \<noteq> latestBlockNumber s + 1 then (Inl InvalidBlockNumber, s)
      else
        (case getLatestBlock env s of
           (Inl e, s1) \<Rightarrow> (Inl e, s1)
         | (Inr parent, s1) \<Rightarrow>
             if parentHash (header blk) \<noteq> blockHash env parent
             then (Inl InvalidParentHash, s1)
             else
               let s2 = s1\<lparr>latestBlockNumber := latestBlockNumber s1 + 1\<rparr>;
                   h = blockHash env blk;
                   s3 = s2\<lparr>blocksByNumber := (blocksByNumber s2)(blockNumber \<mapsto> blk)\<rparr>;
                   s4 = s3\<lparr>blocksByHash := (blocksByHash s3)(h \<mapsto> blk)\<rparr>
               in (case computeTotalDifficulty env blk s4 of
                     (Inl e, s5) \<Rightarrow> (Inl e, s5)
                   | (Inr td, s5) \<Rightarrow>
                       (Inr blk,
                        processTransactions env blk
                          (s5\<lparr>totalDifficultyByBlockHash :=
                                (totalDifficultyByBlockHash s5)(h \<mapsto> td)\<rparr>)))))"

subsection \<open>Deletion\<close>

text \<open>The inner loop of \<^verbatim>\<open>_delBlock\<close>, over the transactions of one block.\<close>

fun deleteTransactions :: "env \<Rightarrow> transaction list \<Rightarrow> forkBlockchain \<Rightarrow> forkBlockchain" where
  "deleteTransactions env [] s = s"
| "deleteTransactions env (t # ts) s =
     deleteTransactions env ts
       (s\<lparr>txByHash := (txByHash s)(txHash env t := None),
          transactionToBlock := (transactionToBlock s)(txHash env t := None)\<rparr>)"

lemma latestBlockNumber_deleteTransactions [simp]:
  "latestBlockNumber (deleteTransactions env ts s) = latestBlockNumber s"
  by (induction ts arbitrary: s) simp_all

text \<open>
  The outer loop of \<^verbatim>\<open>_delBlock\<close>,
  \<^verbatim>\<open>for (let i = blockNumber; this._latestBlockNumber.gten(i); i++)\<close>.
\<close>

function deleteFrom :: "env \<Rightarrow> nat \<Rightarrow> forkBlockchain \<Rightarrow> unit outcome" where
  "deleteFrom env i s =
     (if i \<le> latestBlockNumber s then
        (case blocksByNumber s i of
           None \<Rightarrow> (Inl (Error ''this should never happen''), s)
         | Some currentBlock \<Rightarrow>
             let currentBlockHash = blockHash env currentBlock;
                 s1 = s\<lparr>blocksByHash := (blocksByHash s)(currentBlockHash := None)\<rparr>;
                 s2 = s1\<lparr>blocksByNumber := (blocksByNumber s1)(i := None)\<rparr>;
                 s3 = s2\<lparr>totalDifficultyByBlockHash :=
                          (totalDifficultyByBlockHash s2)(currentBlockHash := None)\<rparr>
             in deleteFrom env (i + 1) (deleteTransactions env (transactions currentBlock) s3))
      else (Inr (), s))"
  by pat_completeness auto
termination
  by (relation "measure (\<lambda>(env, i, s). latestBlockNumber s + 1 - i)") auto

definition priv_delBlock :: "env \<Rightarrow> hash \<Rightarrow> forkBlockchain \<Rightarrow> unit outcome" where
  "priv_delBlock env h s =
     (case blocksByHash s h of
        None \<Rightarrow> (Inl BlockNotFound, s)
      | Some blk \<Rightarrow>
          if number (header blk) \<le> forkBlockNumber env then (Inl CannotDeleteRemote, s)
          else
            let blockNumber = number (header blk) in
            (case deleteFrom env blockNumber s of
               (Inl e, s1) \<Rightarrow> (Inl e, s1)
             | (Inr u, s1) \<Rightarrow> (Inr (), s1\<lparr>latestBlockNumber := blockNumber - 1\<rparr>)))"

definition delBlock :: "env \<Rightarrow> hash \<Rightarrow> forkBlockchain \<Rightarrow> unit outcome" where
  "delBlock env h s = priv_delBlock env h s"

definition deleteAllFollowingBlocks :: "env \<Rightarrow> block \<Rightarrow> forkBlockchain \<Rightarrow> unit outcome" where
  "deleteAllFollowingBlocks env blk s =
     (let blockNumber = number (header blk) in
      case blocksByNumber s blockNumber of
        None \<Rightarrow> (Inl InvalidBlock, s)
      | Some savedBlock \<Rightarrow>
          if blockHash env savedBlock \<noteq> blockHash env blk then (Inl InvalidBlock, s)
          else
            let nextBlockNumber = blockNumber + 1 in
            if forkBlockNumber env \<ge> nextBlockNumber then (Inl CannotDeleteRemote, s)
            else
              (case blocksByNumber s nextBlockNumber of
                 Some nextBlock \<Rightarrow> priv_delBlock env (blockHash env nextBlock) s
               | None \<Rightarrow> (Inr (), s)))"

declare deleteFrom.simps [simp del]

subsection \<open>The world outside the class, and the states a store can reach\<close>

text \<open>
  What the proofs of the store's invariants take for granted of the libraries and of the
  upstream node: \<^verbatim>\<open>Block.hash()\<close> has no collisions; the upstream answers with the
  block at the number asked for; the hash it reports for a block is the hash of the
  block built from the record; and a block it finds by hash is the block it reports at
  that block's number (one canonical chain). A record with a \<^verbatim>\<open>null\<close> hash or number
  is not constrained, and neither is a failure of the transport.
\<close>

definition faithfulUpstream :: "env \<Rightarrow> bool" where
  "faithfulUpstream env \<longleftrightarrow>
     inj (blockHash env) \<and>
     (\<forall>n r h m.
        getBlockByNumber (jsonRpcClient env) n = RpcResult (Some r) \<and>
        rpcHash r = Some h \<and> rpcNumber r = Some m \<longrightarrow>
        m = n \<and> h = blockHash env (rpcToBlock r)) \<and>
     (\<forall>h r h' m.
        getBlockByHash (jsonRpcClient env) h = RpcResult (Some r) \<and>
        rpcHash r = Some h' \<and> rpcNumber r = Some m \<longrightarrow>
        h' = h \<and> getBlockByNumber (jsonRpcClient env) m = RpcResult (Some r))"

text \<open>
  The totals of an upstream chain add up: the total difficulty it reports for block 0
  is that block's difficulty, and the total it reports for a block at a height up to
  the fork block number is the total it reports for the block below plus the block's
  own difficulty. The store takes the upstream's totals as they come and checks
  neither.
\<close>

definition consistentTotals :: "env \<Rightarrow> bool" where
  "consistentTotals env \<longleftrightarrow>
     (\<forall>r. getBlockByNumber (jsonRpcClient env) 0 = RpcResult (Some r) \<longrightarrow>
          rpcTotalDifficulty r = rpcDifficulty r) \<and>
     (\<forall>n r q. Suc n \<le> forkBlockNumber env \<and>
          getBlockByNumber (jsonRpcClient env) (Suc n) = RpcResult (Some r) \<and>
          getBlockByNumber (jsonRpcClient env) n = RpcResult (Some q) \<longrightarrow>
          rpcTotalDifficulty r = rpcTotalDifficulty q + rpcDifficulty r)"

text \<open>What such an upstream answers to either block query.\<close>

definition canonicalAnswer :: "env \<Rightarrow> rpcBlockWithTransactions option \<Rightarrow> bool" where
  "canonicalAnswer env rb \<longleftrightarrow>
     (\<forall>r h m. rb = Some r \<and> rpcHash r = Some h \<and> rpcNumber r = Some m \<longrightarrow>
        h = blockHash env (rpcToBlock r) \<and>
        getBlockByNumber (jsonRpcClient env) m = RpcResult (Some r))"

text \<open>
  A store is reachable when the public methods of the class lead to it from a new store;
  a call that throws leads to the store it leaves behind.
\<close>

inductive reachable :: "env \<Rightarrow> forkBlockchain \<Rightarrow> bool" for env :: env where
  reach_new: "reachable env (newForkBlockchain env)"
| reach_getBlock: "reachable env s \<Longrightarrow> reachable env (snd (getBlock env k s))"
| reach_getLatestBlock: "reachable env s \<Longrightarrow> reachable env (snd (getLatestBlock env s))"
| reach_putBlock: "reachable env s \<Longrightarrow> reachable env (snd (putBlock env blk s))"
| reach_delBlock: "reachable env s \<Longrightarrow> reachable env (snd (delBlock env h s))"
| reach_deleteAllFollowingBlocks:
    "reachable env s \<Longrightarrow> reachable env (snd (deleteAllFollowingBlocks env blk s))"
| reach_getBlockTotalDifficulty:
    "reachable env s \<Longrightarrow> reachable env (snd (getBlockTotalDifficulty env h s))"
| reach_getTransaction: "reachable env s \<Longrightarrow> reachable env (snd (getTransaction env h s))"
| reach_getBlockByTransactionHash:
    "reachable env s \<Longrightarrow> reachable env (snd (getBlockByTransactionHash env h s))"

text \<open>
  The invariant of the block indexes, on the four fields it reads: the latest number is
  at or past the fork; \<open>byNumber\<close> and \<open>byHash\<close> hold the same blocks, each under its
  own number and hash, none above the latest; the local suffix has no gap; a block at
  or below the fork is the upstream's block at that number, with the total difficulty
  the upstream reported; a block above the fork has its parent below it and the
  parent's total difficulty plus its own difficulty; a total difficulty is recorded
  only under the hash of a block held by hash.
\<close>

definition indexInv ::
  "env \<Rightarrow> (nat \<rightharpoonup> block) \<Rightarrow> (hash \<rightharpoonup> block) \<Rightarrow> (hash \<rightharpoonup> nat) \<Rightarrow> nat \<Rightarrow> bool" where
  "indexInv env bn bh td l \<longleftrightarrow>
     forkBlockNumber env \<le> l \<and>
     (\<forall>n p. bn n = Some p \<longrightarrow>
        n \<le> l \<and> number (header p) = n \<and> bh (blockHash env p) = Some p) \<and>
     (\<forall>h p. bh h = Some p \<longrightarrow> h = blockHash env p \<and> bn (number (header p)) = Some p) \<and>
     (\<forall>n. forkBlockNumber env < n \<and> n \<le> l \<longrightarrow> bn n \<noteq> None) \<and>
     (\<forall>n p. bn n = Some p \<and> n \<le> forkBlockNumber env \<longrightarrow>
        (\<exists>r. getBlockByNumber (jsonRpcClient env) n = RpcResult (Some r) \<and>
             rpcHash r = Some (blockHash env p) \<and> rpcNumber r = Some n \<and>
             rpcToBlock r = p \<and> td (blockHash env p) = Some (rpcTotalDifficulty r))) \<and>
     (\<forall>n b. bn n = Some b \<and> forkBlockNumber env < n \<longrightarrow>
        (\<exists>p tp. bn (n - 1) = Some p \<and> td (blockHash env p) = Some tp \<and>
                td (blockHash env b) = Some (tp + difficulty (header b)))) \<and>
     (\<forall>h. td h \<noteq> None \<longrightarrow> bh h \<noteq> None)"

definition storeInv :: "env \<Rightarrow> forkBlockchain \<Rightarrow> bool" where
  "storeInv env s \<longleftrightarrow>
     indexInv env (blocksByNumber s) (blocksByHash s) (totalDifficultyByBlockHash s)
       (latestBlockNumber s)"

text \<open>
  The part of the invariant that holds whatever the upstream answers and whatever
  \<^verbatim>\<open>Block.hash()\<close> is: the latest number is at or past the fork, the local suffix
  has no gap, and a block above the fork that is held by hash is held under its own
  hash, is at most the latest, and is the block held at its number.
\<close>

definition suffixInv ::
  "env \<Rightarrow> (nat \<rightharpoonup> block) \<Rightarrow> (hash \<rightharpoonup> block) \<Rightarrow> nat \<Rightarrow> bool" where
  "suffixInv env bn bh l \<longleftrightarrow>
     forkBlockNumber env \<le> l \<and>
     (\<forall>i. forkBlockNumber env < i \<and> i \<le> l \<longrightarrow> bn i \<noteq> None) \<and>
     (\<forall>h p. bh h = Some p \<and> forkBlockNumber env < number (header p) \<longrightarrow>
          number (header p) \<le> l \<and> h = blockHash env p \<and> bn (number (header p)) = Some p)"

definition storeSuffixInv :: "env \<Rightarrow> forkBlockchain \<Rightarrow> bool" where
  "storeSuffixInv env s \<longleftrightarrow>
     suffixInv env (blocksByNumber s) (blocksByHash s) (latestBlockNumber s)"

text \<open>
  The invariant of the two transaction indexes, whatever the upstream answers: a
  transaction hash that leads to a block also leads to a transaction.
\<close>

definition txIndexInv :: "forkBlockchain \<Rightarrow> bool" where
  "txIndexInv s \<longleftrightarrow> (\<forall>h. transactionToBlock s h \<noteq> None \<longrightarrow> txByHash s h \<noteq> None)"

text \<open>The blocks that a deletion from height \<open>n\<close> drops: those at \<open>n\<close> up to the latest.\<close>

definition blocksFrom :: "forkBlockchain \<Rightarrow> nat \<Rightarrow> block set" where
  "blocksFrom s n =
     {b. \<exists>i. n \<le> i \<and> i \<le> latestBlockNumber s \<and> blocksByNumber s i = Some b}"

definition dropFrom :: "env \<Rightarrow> nat \<Rightarrow> forkBlockchain \<Rightarrow> forkBlockchain" where
  "dropFrom env n s =
     s\<lparr>blocksByNumber :=
         (\<lambda>i. if n \<le> i \<and> i \<le> latestBlockNumber s then None else blocksByNumber s i),
       blocksByHash :=
         (\<lambda>h. if h \<in> blockHash env ` blocksFrom s n then None else blocksByHash s h),
       totalDifficultyByBlockHash :=
         (\<lambda>h. if h \<in> blockHash env ` blocksFrom s n then None
              else totalDifficultyByBlockHash s h),
       txByHash :=
         (\<lambda>h. if h \<in> txHash env ` (\<Union>b \<in> blocksFrom s n. set (transactions b)) then None
              else txByHash s h),
       transactionToBlock :=
         (\<lambda>h. if h \<in> txHash env ` (\<Union>b \<in> blocksFrom s n. set (transactions b)) then None
              else transactionToBlock s h)\<rparr>"

text \<open>Two stores with the same five indexes and the same latest block number.\<close>

definition sameIndexes :: "forkBlockchain \<Rightarrow> forkBlockchain \<Rightarrow> bool" where
  "sameIndexes s' s \<longleftrightarrow>
     blocksByNumber s' = blocksByNumber s \<and> blocksByHash s' = blocksByHash s \<and>
     totalDifficultyByBlockHash s' = totalDifficultyByBlockHash s \<and>
     txByHash s' = txByHash s \<and> transactionToBlock s' = transactionToBlock s \<and>
     latestBlockNumber s' = latestBlockNumber s"

subsection \<open>An example world\<close>

text \<open>
  A concrete upstream and concrete blocks, on which the theorems below are run. The
  upstream chain has three blocks and the store forks it at height 1, so that the
  upstream's block 2 lies past the fork. \<open>encodeBlock\<close> stands in for
  \<^verbatim>\<open>Block.hash()\<close>: it is one-to-one. The upstream knows the transactions of its
  blocks and one pending transaction, 99.
\<close>

definition encodeBlock :: "block \<Rightarrow> hash" where
  "encodeBlock b =
     prod_encode (number (header b),
       prod_encode (parentHash (header b),
         prod_encode (difficulty (header b), list_encode (map raw (transactions b)))))"

definition genesis0 :: block where
  "genesis0 = \<lparr>header = \<lparr>number = 0, parentHash = 0, difficulty = 10\<rparr>, transactions = []\<rparr>"

definition base1 :: block where
  "base1 = \<lparr>header = \<lparr>number = 1, parentHash = encodeBlock genesis0, difficulty = 20\<rparr>,
            transactions = [Transaction 11]\<rparr>"

definition ahead2 :: block where
  "ahead2 = \<lparr>header = \<lparr>number = 2, parentHash = encodeBlock base1, difficulty = 30\<rparr>,
             transactions = [Transaction 21]\<rparr>"

definition local2 :: block where
  "local2 = \<lparr>header = \<lparr>number = 2, parentHash = encodeBlock base1, difficulty = 7\<rparr>,
             transactions = [Transaction 77]\<rparr>"

definition local3 :: block where
  "local3 = \<lparr>header = \<lparr>number = 3, parentHash = encodeBlock local2, difficulty = 5\<rparr>,
             transactions = [Transaction 78, Transaction 79]\<rparr>"

definition stray2 :: block where
  "stray2 = \<lparr>header = \<lparr>number = 2, parentHash = encodeBlock genesis0, difficulty = 7\<rparr>,
             transactions = [Transaction 11]\<rparr>"

text \<open>A block that extends the fork block and carries the fork block's transaction.\<close>

definition replay2 :: block where
  "replay2 = \<lparr>header = \<lparr>number = 2, parentHash = encodeBlock base1, difficulty = 7\<rparr>,
              transactions = [Transaction 11]\<rparr>"

definition asRpcTx :: "block \<Rightarrow> transaction \<Rightarrow> rpcTransaction" where
  "asRpcTx b t =
     \<lparr>rpcTxHash = raw t, rpcTxBlockHash = Some (encodeBlock b),
      rpcTxBlockNumber = Some (number (header b)), rpcTxInput = raw t\<rparr>"

definition asRpcBlock :: "block \<Rightarrow> nat \<Rightarrow> rpcBlockWithTransactions" where
  "asRpcBlock b td =
     \<lparr>rpcHash = Some (encodeBlock b), rpcNumber = Some (number (header b)),
      rpcParentHash = parentHash (header b), rpcDifficulty = difficulty (header b),
      rpcTotalDifficulty = td, rpcTransactions = map (asRpcTx b) (transactions b)\<rparr>"

definition exampleClient :: jsonRpcClient where
  "exampleClient =
     \<lparr>getBlockByHash = (\<lambda>h. RpcResult
         (if h = encodeBlock genesis0 then Some (asRpcBlock genesis0 10)
          else if h = encodeBlock base1 then Some (asRpcBlock base1 30)
          else if h = encodeBlock ahead2 then Some (asRpcBlock ahead2 60)
          else None)),
      getBlockByNumber = (\<lambda>n. RpcResult
         (if n = 0 then Some (asRpcBlock genesis0 10)
          else if n = 1 then Some (asRpcBlock base1 30)
          else if n = 2 then Some (asRpcBlock ahead2 60)
          else None)),
      getTransactionByHash = (\<lambda>h. RpcResult
         (if h = 11 then Some (asRpcTx base1 (Transaction 11))
          else if h = 21 then Some (asRpcTx ahead2 (Transaction 21))
          else if h = 99 then
            Some \<lparr>rpcTxHash = 99, rpcTxBlockHash = None, rpcTxBlockNumber = None,
                  rpcTxInput = 99\<rparr>
          else None))\<rparr>"

definition exampleEnv :: env where
  "exampleEnv =
     \<lparr>jsonRpcClient = exampleClient, forkBlockNumber = 1, blockHash = encodeBlock,
      txHash = raw\<rparr>"

text \<open>
  Three stores of the example world: the new store after its fork block was looked up,
  then with the local block 2 appended, then with the local block 3 appended.
\<close>

definition forkedStore :: forkBlockchain where
  "forkedStore =
     \<lparr>blocksByNumber = [1 \<mapsto> base1],
      blocksByHash = [encodeBlock base1 \<mapsto> base1],
      totalDifficultyByBlockHash = [encodeBlock base1 \<mapsto> 30],
      txByHash = [11 \<mapsto> Transaction 11],
      transactionToBlock = [11 \<mapsto> base1],
      latestBlockNumber = 1,
      upstreamCalls = [CallGetBlockByNumber 1]\<rparr>"

definition oneLocalStore :: forkBlockchain where
  "oneLocalStore =
     \<lparr>blocksByNumber = [1 \<mapsto> base1, 2 \<mapsto> local2],
      blocksByHash = [encodeBlock base1 \<mapsto> base1, encodeBlock local2 \<mapsto> local2],
      totalDifficultyByBlockHash = [encodeBlock base1 \<mapsto> 30, encodeBlock local2 \<mapsto> 37],
      txByHash = [11 \<mapsto> Transaction 11, 77 \<mapsto> Transaction 77],
      transactionToBlock = [11 \<mapsto> base1, 77 \<mapsto> local2],
      latestBlockNumber = 2,
      upstreamCalls = [CallGetBlockByNumber 1]\<rparr>"

definition twoLocalStore :: forkBlockchain where
  "twoLocalStore =
     \<lparr>blocksByNumber = [1 \<mapsto> base1, 2 \<mapsto> local2, 3 \<mapsto> local3],
      blocksByHash =
        [encodeBlock base1 \<mapsto> base1, encodeBlock local2 \<mapsto> local2,
         encodeBlock local3 \<mapsto> local3],
      totalDifficultyByBlockHash =
        [encodeBlock base1 \<mapsto> 30, encodeBlock local2 \<mapsto> 37, encodeBlock local3 \<mapsto> 42],
      txByHash =
        [11 \<mapsto> Transaction 11, 77 \<mapsto> Transaction 77, 78 \<mapsto> Transaction 78,
         79 \<mapsto> Transaction 79],
      transactionToBlock = [11 \<mapsto> base1, 77 \<mapsto> local2, 78 \<mapsto> local3, 79 \<mapsto> local3],
      latestBlockNumber = 3,
      upstreamCalls = [CallGetBlockByNumber 1]\<rparr>"

text \<open>
  Two more stores: the new store after \<^verbatim>\<open>getTransaction\<close> fetched transaction 11 and
  the fork block was then looked up; and the store with one local block after block 0
  was looked up.
\<close>

definition fetchedStore :: forkBlockchain where
  "fetchedStore =
     \<lparr>blocksByNumber = [1 \<mapsto> base1],
      blocksByHash = [encodeBlock base1 \<mapsto> base1],
      totalDifficultyByBlockHash = [encodeBlock base1 \<mapsto> 30],
      txByHash = [11 \<mapsto> Transaction 11],
      transactionToBlock = [11 \<mapsto> base1],
      latestBlockNumber = 1,
      upstreamCalls = [CallGetTransactionByHash 11, CallGetBlockByNumber 1]\<rparr>"

definition rootedStore :: forkBlockchain where
  "rootedStore =
     \<lparr>blocksByNumber = [1 \<mapsto> base1, 2 \<mapsto> local2, 0 \<mapsto> genesis0],
      blocksByHash =
        [encodeBlock base1 \<mapsto> base1, encodeBlock local2 \<mapsto> local2,
         encodeBlock genesis0 \<mapsto> genesis0],
      totalDifficultyByBlockHash =
        [encodeBlock base1 \<mapsto> 30, encodeBlock local2 \<mapsto> 37, encodeBlock genesis0 \<mapsto> 10],
      txByHash = [11 \<mapsto> Transaction 11, 77 \<mapsto> Transaction 77],
      transactionToBlock = [11 \<mapsto> base1, 77 \<mapsto> local2],
      latestBlockNumber = 2,
      upstreamCalls = [CallGetBlockByNumber 1, CallGetBlockByNumber 0]\<rparr>"

section \<open>What the loops do to each field\<close>

lemma indexTransactions_fields [simp]:
  "blocksByNumber (indexTransactions env blk ts s) = blocksByNumber s"
  "blocksByHash (indexTransactions env blk ts s) = blocksByHash s"
  "totalDifficultyByBlockHash (indexTransactions env blk ts s) = totalDifficultyByBlockHash s"
  "latestBlockNumber (indexTransactions env blk ts s) = latestBlockNumber s"
  "upstreamCalls (indexTransactions env blk ts s) = upstreamCalls s"
  by (induction ts arbitrary: s) simp_all

lemma processTransactions_fields [simp]:
  "blocksByNumber (processTransactions env blk s) = blocksByNumber s"
  "blocksByHash (processTransactions env blk s) = blocksByHash s"
  "totalDifficultyByBlockHash (processTransactions env blk s) = totalDifficultyByBlockHash s"
  "latestBlockNumber (processTransactions env blk s) = latestBlockNumber s"
  "upstreamCalls (processTransactions env blk s) = upstreamCalls s"
  by (simp_all add: processTransactions_def)

lemma transactionToBlock_indexTransactions:
  "transactionToBlock (indexTransactions env blk ts s) h =
     (if h \<in> txHash env ` set ts then Some blk else transactionToBlock s h)"
  by (induction ts arbitrary: s) auto

lemma txByHash_indexTransactions_other:
  "h \<notin> txHash env ` set ts \<Longrightarrow> txByHash (indexTransactions env blk ts s) h = txByHash s h"
  by (induction ts arbitrary: s) auto

lemma txByHash_indexTransactions_in:
  "h \<in> txHash env ` set ts \<Longrightarrow>
     \<exists>t \<in> set ts. txHash env t = h \<and> txByHash (indexTransactions env blk ts s) h = Some t"
proof (induction ts arbitrary: s)
  case Nil
  then show ?case by simp
next
  case (Cons a ts)
  show ?case
  proof (cases "h \<in> txHash env ` set ts")
    case True
    from Cons.IH [OF True] show ?thesis by auto
  next
    case False
    with Cons.prems have "txHash env a = h" by auto
    with False show ?thesis by (simp add: txByHash_indexTransactions_other)
  qed
qed

lemma deleteTransactions_fields [simp]:
  "blocksByNumber (deleteTransactions env ts s) = blocksByNumber s"
  "blocksByHash (deleteTransactions env ts s) = blocksByHash s"
  "totalDifficultyByBlockHash (deleteTransactions env ts s) = totalDifficultyByBlockHash s"
  "upstreamCalls (deleteTransactions env ts s) = upstreamCalls s"
  by (induction ts arbitrary: s) simp_all

lemma txByHash_deleteTransactions:
  "txByHash (deleteTransactions env ts s) h =
     (if h \<in> txHash env ` set ts then None else txByHash s h)"
  by (induction ts arbitrary: s) auto

lemma transactionToBlock_deleteTransactions:
  "transactionToBlock (deleteTransactions env ts s) h =
     (if h \<in> txHash env ` set ts then None else transactionToBlock s h)"
  by (induction ts arbitrary: s) auto

lemma callUpstream_fields [simp]:
  "blocksByNumber (callUpstream c s) = blocksByNumber s"
  "blocksByHash (callUpstream c s) = blocksByHash s"
  "totalDifficultyByBlockHash (callUpstream c s) = totalDifficultyByBlockHash s"
  "txByHash (callUpstream c s) = txByHash s"
  "transactionToBlock (callUpstream c s) = transactionToBlock s"
  "latestBlockNumber (callUpstream c s) = latestBlockNumber s"
  "upstreamCalls (callUpstream c s) = upstreamCalls s @ [c]"
  by (simp_all add: callUpstream_def)


lemma blocksFrom_above: "latestBlockNumber s < n \<Longrightarrow> blocksFrom s n = {}"
  by (auto simp: blocksFrom_def)

lemma dropFrom_above:
  assumes "latestBlockNumber s < n"
  shows "dropFrom env n s = s"
proof -
  have "(\<lambda>i. if n \<le> i \<and> i \<le> latestBlockNumber s then None else blocksByNumber s i) =
        blocksByNumber s"
    using assms by (auto simp: fun_eq_iff)
  then show ?thesis using assms by (simp add: dropFrom_def blocksFrom_above)
qed

lemma blocksFrom_step:
  assumes "i \<le> latestBlockNumber s" "blocksByNumber s i = Some cb"
  shows "blocksFrom s i = insert cb (blocksFrom s (Suc i))"
proof -
  have "\<And>k. i \<le> k \<longleftrightarrow> k = i \<or> Suc i \<le> k" by auto
  with assms show ?thesis by (auto simp: blocksFrom_def)
qed

lemma blocksFrom_cong:
  assumes "latestBlockNumber s' = latestBlockNumber s"
    and "\<And>k. n \<le> k \<Longrightarrow> blocksByNumber s' k = blocksByNumber s k"
  shows "blocksFrom s' n = blocksFrom s n"
  using assms by (auto simp: blocksFrom_def)

lemma deleteFrom_dropFrom:
  "(\<forall>k. i \<le> k \<and> k \<le> latestBlockNumber s \<longrightarrow> blocksByNumber s k \<noteq> None) \<Longrightarrow>
   deleteFrom env i s = (Inr (), dropFrom env i s)"
proof (induction env i s rule: deleteFrom.induct)
  case (1 env i s)
  show ?case
  proof (cases "i \<le> latestBlockNumber s")
    case False
    then show ?thesis by (simp add: deleteFrom.simps [of env i s] dropFrom_above)
  next
    case True
    with "1.prems" obtain cb where cb: "blocksByNumber s i = Some cb" by auto
    define s' where "s' = deleteTransactions env (transactions cb)
       (s\<lparr>blocksByHash := (blocksByHash s)(blockHash env cb := None),
          blocksByNumber := (blocksByNumber s)(i := None),
          totalDifficultyByBlockHash := (totalDifficultyByBlockHash s)(blockHash env cb := None)\<rparr>)"
    have unfold: "deleteFrom env i s = deleteFrom env (i + 1) s'"
      using True cb by (simp add: deleteFrom.simps [of env i s] s'_def Let_def)
    have L: "latestBlockNumber s' = latestBlockNumber s" by (simp add: s'_def)
    have bn: "blocksByNumber s' = (blocksByNumber s)(i := None)" by (simp add: s'_def)
    have gap: "\<forall>k. i + 1 \<le> k \<and> k \<le> latestBlockNumber s' \<longrightarrow> blocksByNumber s' k \<noteq> None"
      using "1.prems" by (simp add: L bn)
    have IH: "deleteFrom env (i + 1) s' = (Inr (), dropFrom env (i + 1) s')"
      using "1.IH" [OF True cb refl refl refl refl] gap unfolding s'_def by simp
    have bf': "blocksFrom s' (Suc i) = blocksFrom s (Suc i)"
      by (rule blocksFrom_cong) (simp_all add: L bn)
    have bf: "blocksFrom s i = insert cb (blocksFrom s (Suc i))"
      by (rule blocksFrom_step [OF True cb])
    have bh: "blocksByHash s' = (blocksByHash s)(blockHash env cb := None)"
      and td: "totalDifficultyByBlockHash s' =
                 (totalDifficultyByBlockHash s)(blockHash env cb := None)"
      and uc: "upstreamCalls s' = upstreamCalls s"
      and mo: "forkBlockchain.more s' = forkBlockchain.more s"
      by (simp_all add: s'_def)
    have tx: "\<And>h. txByHash s' h =
                (if h \<in> txHash env ` set (transactions cb) then None else txByHash s h)"
      and tb: "\<And>h. transactionToBlock s' h =
                (if h \<in> txHash env ` set (transactions cb) then None
                 else transactionToBlock s h)"
      by (simp_all add: s'_def txByHash_deleteTransactions
            transactionToBlock_deleteTransactions)
    have "dropFrom env (Suc i) s' = dropFrom env i s"
    proof (rule forkBlockchain.equality)
      show "blocksByNumber (dropFrom env (Suc i) s') = blocksByNumber (dropFrom env i s)"
        using cb True by (auto simp: dropFrom_def L bn fun_eq_iff)
      show "blocksByHash (dropFrom env (Suc i) s') = blocksByHash (dropFrom env i s)"
        by (auto simp: dropFrom_def bf' bf fun_eq_iff bh)
      show "totalDifficultyByBlockHash (dropFrom env (Suc i) s') =
            totalDifficultyByBlockHash (dropFrom env i s)"
        by (auto simp: dropFrom_def bf' bf fun_eq_iff td)
      show "txByHash (dropFrom env (Suc i) s') = txByHash (dropFrom env i s)"
        by (auto simp: dropFrom_def bf' bf fun_eq_iff tx)
      show "transactionToBlock (dropFrom env (Suc i) s') = transactionToBlock (dropFrom env i s)"
        by (auto simp: dropFrom_def bf' bf fun_eq_iff tb)
      show "latestBlockNumber (dropFrom env (Suc i) s') = latestBlockNumber (dropFrom env i s)"
        by (simp add: dropFrom_def L)
      show "upstreamCalls (dropFrom env (Suc i) s') = upstreamCalls (dropFrom env i s)"
        by (simp add: dropFrom_def uc)
      show "forkBlockchain.more (dropFrom env (Suc i) s') = forkBlockchain.more (dropFrom env i s)"
        by (simp add: dropFrom_def mo)
    qed
    with unfold IH show ?thesis by simp
  qed
qed

section \<open>The invariant of the block indexes\<close>

lemma number_rpcToBlock [simp]:
  "rpcNumber r = Some n \<Longrightarrow> number (header (rpcToBlock r)) = n"
  by (simp add: rpcToBlock_def)

text \<open>Ingesting a canonical upstream block keeps the invariant.\<close>

lemma indexInv_remote:
  assumes inv: "indexInv env bn bh td l"
    and inj: "inj (blockHash env)"
    and r: "getBlockByNumber (jsonRpcClient env) m = RpcResult (Some r)"
      "rpcNumber r = Some m" "rpcHash r = Some h" "h = blockHash env (rpcToBlock r)"
    and m: "m \<le> forkBlockNumber env"
  shows "indexInv env (bn(m \<mapsto> rpcToBlock r)) (bh(h \<mapsto> rpcToBlock r))
           (td(h \<mapsto> rpcTotalDifficulty r)) l"
proof -
  let ?B = "rpcToBlock r"
  have nB: "number (header ?B) = m" using r(2) by simp
  have heq: "\<And>p. blockHash env p = h \<longleftrightarrow> p = ?B"
    using inj r(4) by (auto simp: inj_def)
  from inv have F: "forkBlockNumber env \<le> l"
    and b: "\<And>n p. bn n = Some p \<Longrightarrow> n \<le> l \<and> number (header p) = n \<and> bh (blockHash env p) = Some p"
    and c: "\<And>h p. bh h = Some p \<Longrightarrow> h = blockHash env p \<and> bn (number (header p)) = Some p"
    and d: "\<And>n. forkBlockNumber env < n \<Longrightarrow> n \<le> l \<Longrightarrow> bn n \<noteq> None"
    and e: "\<And>n p. bn n = Some p \<Longrightarrow> n \<le> forkBlockNumber env \<Longrightarrow>
        (\<exists>r. getBlockByNumber (jsonRpcClient env) n = RpcResult (Some r) \<and>
             rpcHash r = Some (blockHash env p) \<and> rpcNumber r = Some n \<and>
             rpcToBlock r = p \<and> td (blockHash env p) = Some (rpcTotalDifficulty r))"
    and f: "\<And>n b. bn n = Some b \<Longrightarrow> forkBlockNumber env < n \<Longrightarrow>
        (\<exists>p tp. bn (n - 1) = Some p \<and> td (blockHash env p) = Some tp \<and>
                td (blockHash env b) = Some (tp + difficulty (header b)))"
    and g: "\<And>h. td h \<noteq> None \<Longrightarrow> bh h \<noteq> None"
    unfolding indexInv_def by blast+
  have old: "\<And>p. bn m = Some p \<Longrightarrow> p = ?B \<and> td h = Some (rpcTotalDifficulty r)"
    using e [OF _ m] r by (metis rpcResult.inject option.inject)
  show ?thesis
    unfolding indexInv_def
  proof (intro conjI allI impI)
    show "forkBlockNumber env \<le> l" by (rule F)
  next
    fix n p assume "(bn(m \<mapsto> ?B)) n = Some p"
    then show "n \<le> l" using b m F by (auto split: if_splits)
  next
    fix n p assume "(bn(m \<mapsto> ?B)) n = Some p"
    then show "number (header p) = n" using b nB by (auto split: if_splits)
  next
    fix n p assume "(bn(m \<mapsto> ?B)) n = Some p"
    then show "(bh(h \<mapsto> ?B)) (blockHash env p) = Some p"
      using b heq by (auto split: if_splits)
  next
    fix h' p assume "(bh(h \<mapsto> ?B)) h' = Some p"
    then show "h' = blockHash env p" using c r(4) by (auto split: if_splits)
  next
    fix h' p assume a: "(bh(h \<mapsto> ?B)) h' = Some p"
    show "(bn(m \<mapsto> ?B)) (number (header p)) = Some p"
    proof (cases "h' = h")
      case True with a nB show ?thesis by simp
    next
      case False
      with a have "bh h' = Some p" by simp
      then have "bn (number (header p)) = Some p" using c by blast
      then show ?thesis using old by auto
    qed
  next
    fix n assume "forkBlockNumber env < n \<and> n \<le> l"
    then show "(bn(m \<mapsto> ?B)) n \<noteq> None" using d by auto
  next
    fix n p assume a: "(bn(m \<mapsto> ?B)) n = Some p \<and> n \<le> forkBlockNumber env"
    show "\<exists>r'. getBlockByNumber (jsonRpcClient env) n = RpcResult (Some r') \<and>
             rpcHash r' = Some (blockHash env p) \<and> rpcNumber r' = Some n \<and>
             rpcToBlock r' = p \<and>
             (td(h \<mapsto> rpcTotalDifficulty r)) (blockHash env p) = Some (rpcTotalDifficulty r')"
    proof (cases "n = m")
      case True
      with a have "p = ?B" by simp
      with True r show ?thesis by auto
    next
      case False
      with a have pn: "bn n = Some p" by simp
      from e [OF pn] a obtain r' where r': "getBlockByNumber (jsonRpcClient env) n = RpcResult (Some r')"
        "rpcHash r' = Some (blockHash env p)" "rpcNumber r' = Some n"
        "rpcToBlock r' = p" "td (blockHash env p) = Some (rpcTotalDifficulty r')" by blast
      have "p \<noteq> ?B" using b [OF pn] nB False by auto
      then have "blockHash env p \<noteq> h" using heq by simp
      with r' show ?thesis by auto
    qed
  next
    fix n b' assume a: "(bn(m \<mapsto> ?B)) n = Some b' \<and> forkBlockNumber env < n"
    with m have nm: "n \<noteq> m" by auto
    with a have bn': "bn n = Some b'" by simp
    from f [OF bn'] a obtain p tp where p: "bn (n - 1) = Some p" "td (blockHash env p) = Some tp"
      "td (blockHash env b') = Some (tp + difficulty (header b'))" by blast
    have "b' \<noteq> ?B" using b [OF bn'] nB nm by auto
    then have hb: "blockHash env b' \<noteq> h" using heq by simp
    show "\<exists>p tp. (bn(m \<mapsto> ?B)) (n - 1) = Some p \<and>
            (td(h \<mapsto> rpcTotalDifficulty r)) (blockHash env p) = Some tp \<and>
            (td(h \<mapsto> rpcTotalDifficulty r)) (blockHash env b') =
              Some (tp + difficulty (header b'))"
    proof (cases "n - 1 = m")
      case True
      with p old have "p = ?B" "tp = rpcTotalDifficulty r" using r(4) by auto
      with True p hb r(4) show ?thesis by auto
    next
      case False
      have "p \<noteq> ?B" using b [OF p(1)] nB False by auto
      then have "blockHash env p \<noteq> h" using heq by simp
      with False p hb show ?thesis by auto
    qed
  next
    fix h' assume "(td(h \<mapsto> rpcTotalDifficulty r)) h' \<noteq> None"
    then show "(bh(h \<mapsto> ?B)) h' \<noteq> None" using g by (auto split: if_splits)
  qed
qed

lemma indexInv_put:
  assumes inv: "indexInv env bn bh td l"
    and inj: "inj (blockHash env)"
    and nb: "number (header b) = Suc l"
    and par: "bn l = Some p" "td (blockHash env p) = Some tp"
  shows "indexInv env (bn(Suc l \<mapsto> b)) (bh(blockHash env b \<mapsto> b))
           (td(blockHash env b \<mapsto> tp + difficulty (header b))) (Suc l)"
proof -
  have heq: "\<And>q. blockHash env q = blockHash env b \<longleftrightarrow> q = b"
    using inj by (auto simp: inj_def)
  from inv have F: "forkBlockNumber env \<le> l"
    and b: "\<And>n p. bn n = Some p \<Longrightarrow> n \<le> l \<and> number (header p) = n \<and> bh (blockHash env p) = Some p"
    and c: "\<And>h p. bh h = Some p \<Longrightarrow> h = blockHash env p \<and> bn (number (header p)) = Some p"
    and d: "\<And>n. forkBlockNumber env < n \<Longrightarrow> n \<le> l \<Longrightarrow> bn n \<noteq> None"
    and e: "\<And>n p. bn n = Some p \<Longrightarrow> n \<le> forkBlockNumber env \<Longrightarrow>
        (\<exists>r. getBlockByNumber (jsonRpcClient env) n = RpcResult (Some r) \<and>
             rpcHash r = Some (blockHash env p) \<and> rpcNumber r = Some n \<and>
             rpcToBlock r = p \<and> td (blockHash env p) = Some (rpcTotalDifficulty r))"
    and f: "\<And>n b. bn n = Some b \<Longrightarrow> forkBlockNumber env < n \<Longrightarrow>
        (\<exists>p tp. bn (n - 1) = Some p \<and> td (blockHash env p) = Some tp \<and>
                td (blockHash env b) = Some (tp + difficulty (header b)))"
    and g: "\<And>h. td h \<noteq> None \<Longrightarrow> bh h \<noteq> None"
    unfolding indexInv_def by blast+
  have other: "\<And>n q. bn n = Some q \<Longrightarrow> blockHash env q \<noteq> blockHash env b"
    using b nb heq by fastforce
  show ?thesis
    unfolding indexInv_def
  proof (intro conjI allI impI)
    show "forkBlockNumber env \<le> Suc l" using F by simp
  next
    fix n q assume "(bn(Suc l \<mapsto> b)) n = Some q"
    then show "n \<le> Suc l" using b by (auto split: if_splits dest: le_SucI)
  next
    fix n q assume "(bn(Suc l \<mapsto> b)) n = Some q"
    then show "number (header q) = n" using b nb by (auto split: if_splits)
  next
    fix n q assume "(bn(Suc l \<mapsto> b)) n = Some q"
    then show "(bh(blockHash env b \<mapsto> b)) (blockHash env q) = Some q"
      using b other by (auto split: if_splits)
  next
    fix h' q assume "(bh(blockHash env b \<mapsto> b)) h' = Some q"
    then show "h' = blockHash env q" using c by (auto split: if_splits)
  next
    fix h' q assume a: "(bh(blockHash env b \<mapsto> b)) h' = Some q"
    show "(bn(Suc l \<mapsto> b)) (number (header q)) = Some q"
    proof (cases "h' = blockHash env b")
      case True with a nb show ?thesis by simp
    next
      case False
      with a have "bh h' = Some q" by simp
      then have q: "bn (number (header q)) = Some q" using c by blast
      with b have "number (header q) \<le> l" by blast
      with q show ?thesis by auto
    qed
  next
    fix n assume "forkBlockNumber env < n \<and> n \<le> Suc l"
    then show "(bn(Suc l \<mapsto> b)) n \<noteq> None" using d by (cases "n = Suc l") auto
  next
    fix n q assume a: "(bn(Suc l \<mapsto> b)) n = Some q \<and> n \<le> forkBlockNumber env"
    with F have "n \<noteq> Suc l" by auto
    with a have q: "bn n = Some q" by simp
    from e [OF q] a other [OF q]
    show "\<exists>r'. getBlockByNumber (jsonRpcClient env) n = RpcResult (Some r') \<and>
             rpcHash r' = Some (blockHash env q) \<and> rpcNumber r' = Some n \<and>
             rpcToBlock r' = q \<and>
             (td(blockHash env b \<mapsto> tp + difficulty (header b))) (blockHash env q) =
               Some (rpcTotalDifficulty r')"
      by auto
  next
    fix n b' assume a: "(bn(Suc l \<mapsto> b)) n = Some b' \<and> forkBlockNumber env < n"
    show "\<exists>p tp'. (bn(Suc l \<mapsto> b)) (n - 1) = Some p \<and>
            (td(blockHash env b \<mapsto> tp + difficulty (header b))) (blockHash env p) = Some tp' \<and>
            (td(blockHash env b \<mapsto> tp + difficulty (header b))) (blockHash env b') =
              Some (tp' + difficulty (header b'))"
    proof (cases "n = Suc l")
      case True
      with a have "b' = b" by simp
      with True par other [OF par(1)] show ?thesis by auto
    next
      case False
      with a have bn': "bn n = Some b'" by simp
      from f [OF bn'] a obtain q tq where q: "bn (n - 1) = Some q" "td (blockHash env q) = Some tq"
        "td (blockHash env b') = Some (tq + difficulty (header b'))" by blast
      have "n - 1 \<noteq> Suc l" using b [OF bn'] by auto
      with q other [OF q(1)] other [OF bn'] show ?thesis by auto
    qed
  next
    fix h' assume "(td(blockHash env b \<mapsto> tp + difficulty (header b))) h' \<noteq> None"
    then show "(bh(blockHash env b \<mapsto> b)) h' \<noteq> None" using g by (auto split: if_splits)
  qed
qed

lemma indexInv_drop:
  assumes inv: "indexInv env bn bh td l"
    and inj: "inj (blockHash env)"
    and n: "forkBlockNumber env < n"
    and D: "D = {b. \<exists>i. n \<le> i \<and> i \<le> l \<and> bn i = Some b}"
  shows "indexInv env (\<lambda>i. if n \<le> i \<and> i \<le> l then None else bn i)
           (\<lambda>h. if h \<in> blockHash env ` D then None else bh h)
           (\<lambda>h. if h \<in> blockHash env ` D then None else td h) (min l (n - 1))"
proof -
  from inv have F: "forkBlockNumber env \<le> l"
    and b: "\<And>n p. bn n = Some p \<Longrightarrow> n \<le> l \<and> number (header p) = n \<and> bh (blockHash env p) = Some p"
    and c: "\<And>h p. bh h = Some p \<Longrightarrow> h = blockHash env p \<and> bn (number (header p)) = Some p"
    and d: "\<And>n. forkBlockNumber env < n \<Longrightarrow> n \<le> l \<Longrightarrow> bn n \<noteq> None"
    and e: "\<And>n p. bn n = Some p \<Longrightarrow> n \<le> forkBlockNumber env \<Longrightarrow>
        (\<exists>r. getBlockByNumber (jsonRpcClient env) n = RpcResult (Some r) \<and>
             rpcHash r = Some (blockHash env p) \<and> rpcNumber r = Some n \<and>
             rpcToBlock r = p \<and> td (blockHash env p) = Some (rpcTotalDifficulty r))"
    and f: "\<And>n b. bn n = Some b \<Longrightarrow> forkBlockNumber env < n \<Longrightarrow>
        (\<exists>p tp. bn (n - 1) = Some p \<and> td (blockHash env p) = Some tp \<and>
                td (blockHash env b) = Some (tp + difficulty (header b)))"
    and g: "\<And>h. td h \<noteq> None \<Longrightarrow> bh h \<noteq> None"
    unfolding indexInv_def by blast+
  have inD: "\<And>k q. bn k = Some q \<Longrightarrow> blockHash env q \<in> blockHash env ` D \<longleftrightarrow> n \<le> k"
  proof -
    fix k q assume q: "bn k = Some q"
    have "blockHash env q \<in> blockHash env ` D \<longleftrightarrow> q \<in> D"
      using inj by (auto simp: inj_def)
    also have "\<dots> \<longleftrightarrow> n \<le> k"
    proof
      assume "q \<in> D"
      then obtain i where i: "n \<le> i" "bn i = Some q" unfolding D by blast
      from b [OF i(2)] b [OF q] have "i = k" by simp
      with i show "n \<le> k" by simp
    next
      assume "n \<le> k"
      with b [OF q] q show "q \<in> D" unfolding D by blast
    qed
    finally show "blockHash env q \<in> blockHash env ` D \<longleftrightarrow> n \<le> k" .
  qed
  show ?thesis
    unfolding indexInv_def
  proof (intro conjI allI impI)
    show "forkBlockNumber env \<le> min l (n - 1)" using F n by simp
  next
    fix k q assume "(if n \<le> k \<and> k \<le> l then None else bn k) = Some q"
    then show "k \<le> min l (n - 1)" using b [of k q] by (auto split: if_splits)
  next
    fix k q assume "(if n \<le> k \<and> k \<le> l then None else bn k) = Some q"
    then show "number (header q) = k" using b by (auto split: if_splits)
  next
    fix k q assume a: "(if n \<le> k \<and> k \<le> l then None else bn k) = Some q"
    then have q: "bn k = Some q" and k: "\<not> n \<le> k" using b [of k q] by (auto split: if_splits)
    then show "(if blockHash env q \<in> blockHash env ` D then None else bh (blockHash env q)) = Some q"
      using inD [OF q] b [OF q] by simp
  next
    fix h' q assume "(if h' \<in> blockHash env ` D then None else bh h') = Some q"
    then show "h' = blockHash env q" using c by (auto split: if_splits)
  next
    fix h' q assume a: "(if h' \<in> blockHash env ` D then None else bh h') = Some q"
    then have nin: "h' \<notin> blockHash env ` D" and q: "bh h' = Some q" by (auto split: if_splits)
    from c [OF q] have h': "h' = blockHash env q" and bq: "bn (number (header q)) = Some q" by auto
    from inD [OF bq] nin h' have "\<not> n \<le> number (header q)" by simp
    with bq show "(if n \<le> number (header q) \<and> number (header q) \<le> l then None
                   else bn (number (header q))) = Some q" by simp
  next
    fix k assume "forkBlockNumber env < k \<and> k \<le> min l (n - 1)"
    then show "(if n \<le> k \<and> k \<le> l then None else bn k) \<noteq> None" using d n by auto
  next
    fix k q assume a: "(if n \<le> k \<and> k \<le> l then None else bn k) = Some q \<and> k \<le> forkBlockNumber env"
    then have q: "bn k = Some q" by (auto split: if_splits)
    have "\<not> n \<le> k" using a n by auto
    with inD [OF q] have "blockHash env q \<notin> blockHash env ` D" by simp
    with e [OF q] a
    show "\<exists>r'. getBlockByNumber (jsonRpcClient env) k = RpcResult (Some r') \<and>
             rpcHash r' = Some (blockHash env q) \<and> rpcNumber r' = Some k \<and>
             rpcToBlock r' = q \<and>
             (if blockHash env q \<in> blockHash env ` D then None else td (blockHash env q)) =
               Some (rpcTotalDifficulty r')"
      by auto
  next
    fix k b' assume a: "(if n \<le> k \<and> k \<le> l then None else bn k) = Some b' \<and> forkBlockNumber env < k"
    then have bk: "bn k = Some b'" and k: "\<not> n \<le> k" using b [of k b'] by (auto split: if_splits)
    from f [OF bk] a obtain q tq where q: "bn (k - 1) = Some q" "td (blockHash env q) = Some tq"
        "td (blockHash env b') = Some (tq + difficulty (header b'))" by blast
    have k1: "\<not> n \<le> k - 1" using k by auto
    from inD [OF bk] k have "blockHash env b' \<notin> blockHash env ` D" by simp
    moreover from inD [OF q(1)] k1 have "blockHash env q \<notin> blockHash env ` D" by simp
    ultimately show "\<exists>p tp. (if n \<le> k - 1 \<and> k - 1 \<le> l then None else bn (k - 1)) = Some p \<and>
            (if blockHash env p \<in> blockHash env ` D then None else td (blockHash env p)) = Some tp \<and>
            (if blockHash env b' \<in> blockHash env ` D then None else td (blockHash env b')) =
              Some (tp + difficulty (header b'))"
      using q k1 by auto
  next
    fix h' assume "(if h' \<in> blockHash env ` D then None else td h') \<noteq> None"
    then show "(if h' \<in> blockHash env ` D then None else bh h') \<noteq> None"
      using g by (auto split: if_splits)
  qed
qed

lemma canonicalAnswer_byNumber:
  "faithfulUpstream env \<Longrightarrow> getBlockByNumber (jsonRpcClient env) n = RpcResult rb \<Longrightarrow>
   canonicalAnswer env rb"
  unfolding faithfulUpstream_def canonicalAnswer_def by blast

lemma canonicalAnswer_byHash:
  "faithfulUpstream env \<Longrightarrow> getBlockByHash (jsonRpcClient env) h = RpcResult rb \<Longrightarrow>
   canonicalAnswer env rb"
  unfolding faithfulUpstream_def canonicalAnswer_def by blast

lemma storeInv_callUpstream [simp]: "storeInv env (callUpstream c s) = storeInv env s"
  by (simp add: storeInv_def)

lemma storeInv_processTransactions [simp]:
  "storeInv env (processTransactions env' blk s) = storeInv env s"
  by (simp add: storeInv_def)

lemma storeInv_txByHash_update [simp]:
  "storeInv env (s\<lparr>txByHash := x\<rparr>) = storeInv env s"
  by (simp add: storeInv_def)

lemma processRemoteBlock_cases:
  obtains (missing) "processRemoteBlock env rb s = (Inl BlockNotFound, s)"
  | (found) r h n where "rb = Some r" "rpcHash r = Some h" "rpcNumber r = Some n"
      "n \<le> forkBlockNumber env"
      "processRemoteBlock env rb s =
         (Inr (rpcToBlock r),
          processTransactions env (rpcToBlock r)
            (s\<lparr>blocksByNumber := (blocksByNumber s)(n \<mapsto> rpcToBlock r),
               blocksByHash := (blocksByHash s)(h \<mapsto> rpcToBlock r),
               totalDifficultyByBlockHash :=
                 (totalDifficultyByBlockHash s)(h \<mapsto> rpcTotalDifficulty r)\<rparr>))"
proof (cases rb)
  case None
  then show ?thesis by (intro missing) (simp add: processRemoteBlock_def)
next
  case (Some r)
  show ?thesis
  proof (cases "rpcHash r")
    case None
    with Some show ?thesis by (intro missing) (simp add: processRemoteBlock_def)
  next
    case h: (Some h)
    show ?thesis
    proof (cases "rpcNumber r")
      case None
      with Some h show ?thesis by (intro missing) (simp add: processRemoteBlock_def)
    next
      case n: (Some n)
      show ?thesis
      proof (cases "n \<le> forkBlockNumber env")
        case True
        with Some h n show ?thesis
          by (intro found [of r h n]) (simp_all add: processRemoteBlock_def Let_def)
      next
        case False
        with Some h n show ?thesis by (intro missing) (simp add: processRemoteBlock_def)
      qed
    qed
  qed
qed

lemma storeInv_processRemoteBlock:
  assumes "faithfulUpstream env" "canonicalAnswer env rb" "storeInv env s"
  shows "storeInv env (snd (processRemoteBlock env rb s))"
proof (cases rule: processRemoteBlock_cases [of env rb s])
  case missing
  with assms show ?thesis by simp
next
  case (found r h n)
  from assms(2) found have h: "h = blockHash env (rpcToBlock r)"
    and c: "getBlockByNumber (jsonRpcClient env) n = RpcResult (Some r)"
    unfolding canonicalAnswer_def by blast+
  from assms(1) have inj: "inj (blockHash env)" by (simp add: faithfulUpstream_def)
  from assms(3) have "indexInv env (blocksByNumber s) (blocksByHash s)
     (totalDifficultyByBlockHash s) (latestBlockNumber s)" by (simp add: storeInv_def)
  from indexInv_remote [OF this inj c found(3) found(2) h found(4)]
  show ?thesis by (simp add: found(5) storeInv_def)
qed

lemma processRemoteBlock_latest [simp]:
  "latestBlockNumber (snd (processRemoteBlock env rb s)) = latestBlockNumber s"
  by (cases rule: processRemoteBlock_cases [of env rb s]) simp_all

lemma priv_getBlockByHash_cases:
  obtains (cached) b where "blocksByHash s h = Some b" "priv_getBlockByHash env h s = (Inr b, s)"
  | (failed) "blocksByHash s h = None" "getBlockByHash (jsonRpcClient env) h = RpcFailure"
      "priv_getBlockByHash env h s = (Inl UpstreamError, callUpstream (CallGetBlockByHash h) s)"
  | (fetched) rb where "blocksByHash s h = None" "getBlockByHash (jsonRpcClient env) h = RpcResult rb"
      "priv_getBlockByHash env h s =
         processRemoteBlock env rb (callUpstream (CallGetBlockByHash h) s)"
proof (cases "blocksByHash s h")
  case (Some b)
  then show ?thesis by (intro cached [of b]) (simp_all add: priv_getBlockByHash_def)
next
  case None
  show ?thesis
  proof (cases "getBlockByHash (jsonRpcClient env) h")
    case RpcFailure
    with None show ?thesis by (intro failed) (simp_all add: priv_getBlockByHash_def)
  next
    case (RpcResult rb)
    with None show ?thesis by (intro fetched [of rb]) (simp_all add: priv_getBlockByHash_def)
  qed
qed

lemma priv_getBlockByNumber_cases:
  obtains (beyond) "latestBlockNumber s < n" "priv_getBlockByNumber env n s = (Inl BlockNotFound, s)"
  | (cached) b where "n \<le> latestBlockNumber s" "blocksByNumber s n = Some b"
      "priv_getBlockByNumber env n s = (Inr b, s)"
  | (failed) "n \<le> latestBlockNumber s" "blocksByNumber s n = None"
      "getBlockByNumber (jsonRpcClient env) n = RpcFailure"
      "priv_getBlockByNumber env n s =
         (Inl UpstreamError, callUpstream (CallGetBlockByNumber n) s)"
  | (fetched) rb where "n \<le> latestBlockNumber s" "blocksByNumber s n = None"
      "getBlockByNumber (jsonRpcClient env) n = RpcResult rb"
      "priv_getBlockByNumber env n s =
         processRemoteBlock env rb (callUpstream (CallGetBlockByNumber n) s)"
proof (cases "latestBlockNumber s < n")
  case True
  then show ?thesis by (intro beyond) (simp_all add: priv_getBlockByNumber_def)
next
  case le: False
  show ?thesis
  proof (cases "blocksByNumber s n")
    case (Some b)
    with le show ?thesis by (intro cached [of b]) (simp_all add: priv_getBlockByNumber_def)
  next
    case None
    show ?thesis
    proof (cases "getBlockByNumber (jsonRpcClient env) n")
      case RpcFailure
      with le None show ?thesis
        by (intro failed) (simp_all add: priv_getBlockByNumber_def)
    next
      case (RpcResult rb)
      with le None show ?thesis
        by (intro fetched [of rb]) (simp_all add: priv_getBlockByNumber_def)
    qed
  qed
qed

lemma storeInv_getBlock:
  assumes "faithfulUpstream env" "storeInv env s"
  shows "storeInv env (snd (getBlock env k s))"
proof (cases k)
  case (BlockHash h)
  show ?thesis
  proof (cases rule: priv_getBlockByHash_cases [of s h env])
    case (cached b)
    with assms BlockHash show ?thesis by (simp add: getBlock_def)
  next
    case failed
    with assms BlockHash show ?thesis by (simp add: getBlock_def)
  next
    case (fetched rb)
    from canonicalAnswer_byHash [OF assms(1) fetched(2)] assms
    have "storeInv env (snd (processRemoteBlock env rb (callUpstream (CallGetBlockByHash h) s)))"
      by (intro storeInv_processRemoteBlock) simp_all
    with fetched BlockHash show ?thesis by (simp add: getBlock_def)
  qed
next
  case (BlockNumber n)
  show ?thesis
  proof (cases rule: priv_getBlockByNumber_cases [of s n env])
    case beyond
    with assms BlockNumber show ?thesis by (simp add: getBlock_def)
  next
    case (cached b)
    with assms BlockNumber show ?thesis by (simp add: getBlock_def)
  next
    case failed
    with assms BlockNumber show ?thesis by (simp add: getBlock_def)
  next
    case (fetched rb)
    from canonicalAnswer_byNumber [OF assms(1) fetched(3)] assms
    have "storeInv env (snd (processRemoteBlock env rb (callUpstream (CallGetBlockByNumber n) s)))"
      by (intro storeInv_processRemoteBlock) simp_all
    with fetched BlockNumber show ?thesis by (simp add: getBlock_def)
  qed
qed

lemma getBlock_latest [simp]:
  "latestBlockNumber (snd (getBlock env k s)) = latestBlockNumber s"
proof (cases k)
  case (BlockHash h)
  show ?thesis
    by (cases rule: priv_getBlockByHash_cases [of s h env])
       (simp_all add: getBlock_def BlockHash)
next
  case (BlockNumber n)
  show ?thesis
    by (cases rule: priv_getBlockByNumber_cases [of s n env])
       (simp_all add: getBlock_def BlockNumber)
qed

text \<open>A block looked up by number is afterwards cached under that number.\<close>

lemma getBlock_number_cached:
  assumes "faithfulUpstream env" "getBlock env (BlockNumber n) s = (Inr b, s1)"
  shows "blocksByNumber s1 n = Some b"
proof (cases rule: priv_getBlockByNumber_cases [of s n env])
  case beyond
  with assms(2) show ?thesis by (simp add: getBlock_def)
next
  case (cached b')
  with assms(2) show ?thesis by (simp add: getBlock_def)
next
  case failed
  with assms(2) show ?thesis by (simp add: getBlock_def)
next
  case (fetched rb)
  with assms(2) have p:
    "processRemoteBlock env rb (callUpstream (CallGetBlockByNumber n) s) = (Inr b, s1)"
    by (simp add: getBlock_def)
  show ?thesis
  proof (cases rule: processRemoteBlock_cases [of env rb "callUpstream (CallGetBlockByNumber n) s"])
    case missing
    with p show ?thesis by simp
  next
    case (found r h m)
    with fetched(3) assms(1) have "m = n" unfolding faithfulUpstream_def by blast
    with found p show ?thesis by auto
  qed
qed

lemma getBlock_hash_cached:
  assumes "faithfulUpstream env" "getBlock env (BlockHash h) s = (Inr b, s1)"
  shows "blocksByHash s1 h = Some b \<and> totalDifficultyByBlockHash s1 h \<noteq> None \<or>
         blocksByHash s h = Some b \<and> s1 = s"
proof (cases rule: priv_getBlockByHash_cases [of s h env])
  case (cached b')
  with assms(2) show ?thesis by (simp add: getBlock_def)
next
  case failed
  with assms(2) show ?thesis by (simp add: getBlock_def)
next
  case (fetched rb)
  with assms(2) have p:
    "processRemoteBlock env rb (callUpstream (CallGetBlockByHash h) s) = (Inr b, s1)"
    by (simp add: getBlock_def)
  show ?thesis
  proof (cases rule: processRemoteBlock_cases [of env rb "callUpstream (CallGetBlockByHash h) s"])
    case missing
    with p show ?thesis by simp
  next
    case (found r h' m)
    with fetched(2) assms(1) have "h' = h" unfolding faithfulUpstream_def by blast
    with found p show ?thesis by auto
  qed
qed

lemma storeInvD:
  assumes "storeInv env s"
  shows "forkBlockNumber env \<le> latestBlockNumber s"
    and "\<And>n p. blocksByNumber s n = Some p \<Longrightarrow>
           n \<le> latestBlockNumber s \<and> number (header p) = n \<and>
           blocksByHash s (blockHash env p) = Some p"
    and "\<And>h p. blocksByHash s h = Some p \<Longrightarrow>
           h = blockHash env p \<and> blocksByNumber s (number (header p)) = Some p"
    and "\<And>n. forkBlockNumber env < n \<Longrightarrow> n \<le> latestBlockNumber s \<Longrightarrow>
           blocksByNumber s n \<noteq> None"
    and "\<And>n p. blocksByNumber s n = Some p \<Longrightarrow> n \<le> forkBlockNumber env \<Longrightarrow>
        (\<exists>r. getBlockByNumber (jsonRpcClient env) n = RpcResult (Some r) \<and>
             rpcHash r = Some (blockHash env p) \<and> rpcNumber r = Some n \<and>
             rpcToBlock r = p \<and>
             totalDifficultyByBlockHash s (blockHash env p) = Some (rpcTotalDifficulty r))"
    and "\<And>n b. blocksByNumber s n = Some b \<Longrightarrow> forkBlockNumber env < n \<Longrightarrow>
        (\<exists>p tp. blocksByNumber s (n - 1) = Some p \<and>
                totalDifficultyByBlockHash s (blockHash env p) = Some tp \<and>
                totalDifficultyByBlockHash s (blockHash env b) =
                  Some (tp + difficulty (header b)))"
    and "\<And>h. totalDifficultyByBlockHash s h \<noteq> None \<Longrightarrow> blocksByHash s h \<noteq> None"
  using assms unfolding storeInv_def indexInv_def by blast+

lemma storeInv_td_byNumber:
  assumes "storeInv env s" "blocksByNumber s n = Some p"
  shows "\<exists>t. totalDifficultyByBlockHash s (blockHash env p) = Some t"
proof (cases "n \<le> forkBlockNumber env")
  case True
  from storeInvD(5) [OF assms True] show ?thesis by blast
next
  case False
  then have "forkBlockNumber env < n" by simp
  from storeInvD(6) [OF assms this] show ?thesis by blast
qed

lemma storeInv_td_byHash:
  assumes "storeInv env s" "blocksByHash s h = Some p"
  shows "\<exists>t. totalDifficultyByBlockHash s h = Some t"
proof -
  from storeInvD(3) [OF assms]
  have "h = blockHash env p" "blocksByNumber s (number (header p)) = Some p" by simp_all
  with storeInv_td_byNumber [OF assms(1)] show ?thesis by blast
qed

lemma putBlock_appends:
  assumes fu: "faithfulUpstream env" and inv: "storeInv env s"
    and latest: "getLatestBlock env s = (Inr p, s1)"
    and nb: "number (header b) = latestBlockNumber s + 1"
    and ph: "parentHash (header b) = blockHash env p"
  shows "\<exists>tp. totalDifficultyByBlockHash s1 (blockHash env p) = Some tp \<and>
           blocksByNumber s1 (latestBlockNumber s) = Some p \<and>
           putBlock env b s =
             (Inr b,
              processTransactions env b
                (s1\<lparr>latestBlockNumber := latestBlockNumber s + 1,
                    blocksByNumber := (blocksByNumber s1)(latestBlockNumber s + 1 \<mapsto> b),
                    blocksByHash := (blocksByHash s1)(blockHash env b \<mapsto> b),
                    totalDifficultyByBlockHash :=
                      (totalDifficultyByBlockHash s1)
                        (blockHash env b \<mapsto> tp + difficulty (header b))\<rparr>))"
proof -
  from latest have g: "getBlock env (BlockNumber (latestBlockNumber s)) s = (Inr p, s1)"
    by (simp add: getLatestBlock_def)
  have s1: "s1 = snd (getBlock env (BlockNumber (latestBlockNumber s)) s)" by (simp add: g)
  have inv1: "storeInv env s1" unfolding s1 by (rule storeInv_getBlock [OF fu inv])
  have L1: "latestBlockNumber s1 = latestBlockNumber s" unfolding s1 by simp
  have par: "blocksByNumber s1 (latestBlockNumber s) = Some p"
    by (rule getBlock_number_cached [OF fu g])
  from storeInv_td_byNumber [OF inv1 par] obtain tp
    where tp: "totalDifficultyByBlockHash s1 (blockHash env p) = Some tp" by blast
  have "putBlock env b s =
             (Inr b,
              processTransactions env b
                (s1\<lparr>latestBlockNumber := latestBlockNumber s + 1,
                    blocksByNumber := (blocksByNumber s1)(latestBlockNumber s + 1 \<mapsto> b),
                    blocksByHash := (blocksByHash s1)(blockHash env b \<mapsto> b),
                    totalDifficultyByBlockHash :=
                      (totalDifficultyByBlockHash s1)
                        (blockHash env b \<mapsto> tp + difficulty (header b))\<rparr>))"
    by (simp add: putBlock_def latest nb ph computeTotalDifficulty_def L1 par tp Let_def)
  with tp par show ?thesis by blast
qed

lemma storeInv_putBlock:
  assumes fu: "faithfulUpstream env" and inv: "storeInv env s"
  shows "storeInv env (snd (putBlock env b s))"
proof (cases "number (header b) = latestBlockNumber s + 1")
  case False
  with inv show ?thesis by (simp add: putBlock_def)
next
  case nb: True
  obtain res s1 where latest: "getLatestBlock env s = (res, s1)" by (cases "getLatestBlock env s")
  then have s1: "s1 = snd (getBlock env (BlockNumber (latestBlockNumber s)) s)"
    by (simp add: getLatestBlock_def)
  have inv1: "storeInv env s1" unfolding s1 by (rule storeInv_getBlock [OF fu inv])
  have L1: "latestBlockNumber s1 = latestBlockNumber s" unfolding s1 by simp
  show ?thesis
  proof (cases res)
    case (Inl e)
    with latest nb inv1 show ?thesis by (simp add: putBlock_def)
  next
    case (Inr p)
    show ?thesis
    proof (cases "parentHash (header b) = blockHash env p")
      case False
      with latest nb inv1 Inr show ?thesis by (simp add: putBlock_def)
    next
      case True
      from putBlock_appends [OF fu inv latest [unfolded Inr] nb True] obtain tp where
        tp: "totalDifficultyByBlockHash s1 (blockHash env p) = Some tp"
        and par: "blocksByNumber s1 (latestBlockNumber s) = Some p"
        and put: "putBlock env b s =
             (Inr b,
              processTransactions env b
                (s1\<lparr>latestBlockNumber := latestBlockNumber s + 1,
                    blocksByNumber := (blocksByNumber s1)(latestBlockNumber s + 1 \<mapsto> b),
                    blocksByHash := (blocksByHash s1)(blockHash env b \<mapsto> b),
                    totalDifficultyByBlockHash :=
                      (totalDifficultyByBlockHash s1)
                        (blockHash env b \<mapsto> tp + difficulty (header b))\<rparr>))" by blast
      from fu have inj: "inj (blockHash env)" by (simp add: faithfulUpstream_def)
      from inv1 have "indexInv env (blocksByNumber s1) (blocksByHash s1)
         (totalDifficultyByBlockHash s1) (latestBlockNumber s)" by (simp add: storeInv_def L1)
      from indexInv_put [OF this inj _ par tp, of b] nb
      show ?thesis by (simp add: put storeInv_def)
    qed
  qed
qed

lemma priv_delBlock_drops:
  assumes inv: "storeInv env s" and b: "blocksByHash s h = Some b"
    and loc: "forkBlockNumber env < number (header b)"
  shows "priv_delBlock env h s =
           (Inr (), (dropFrom env (number (header b)) s)
                      \<lparr>latestBlockNumber := number (header b) - 1\<rparr>)"
proof -
  have "\<forall>k. number (header b) \<le> k \<and> k \<le> latestBlockNumber s \<longrightarrow> blocksByNumber s k \<noteq> None"
    using storeInvD(4) [OF inv] loc by auto
  from deleteFrom_dropFrom [OF this, of env] b loc show ?thesis
    by (simp add: priv_delBlock_def Let_def)
qed

lemma storeInv_priv_delBlock:
  assumes fu: "faithfulUpstream env" and inv: "storeInv env s"
  shows "storeInv env (snd (priv_delBlock env h s))"
proof (cases "blocksByHash s h")
  case None
  with inv show ?thesis by (simp add: priv_delBlock_def)
next
  case (Some b)
  show ?thesis
  proof (cases "forkBlockNumber env < number (header b)")
    case False
    with Some inv show ?thesis by (simp add: priv_delBlock_def)
  next
    case True
    from storeInvD(3) [OF inv Some] storeInvD(2) [OF inv]
    have le: "number (header b) \<le> latestBlockNumber s" by blast
    from fu have inj: "inj (blockHash env)" by (simp add: faithfulUpstream_def)
    from inv have "indexInv env (blocksByNumber s) (blocksByHash s)
         (totalDifficultyByBlockHash s) (latestBlockNumber s)" by (simp add: storeInv_def)
    moreover have "min (latestBlockNumber s) (number (header b) - 1) = number (header b) - 1"
      using le True by simp
    ultimately have "indexInv env
        (\<lambda>i. if number (header b) \<le> i \<and> i \<le> latestBlockNumber s then None
             else blocksByNumber s i)
        (\<lambda>h. if h \<in> blockHash env ` blocksFrom s (number (header b)) then None
             else blocksByHash s h)
        (\<lambda>h. if h \<in> blockHash env ` blocksFrom s (number (header b)) then None
             else totalDifficultyByBlockHash s h)
        (number (header b) - 1)"
      using indexInv_drop [OF _ inj True refl, of
          "blocksByNumber s" "blocksByHash s" "totalDifficultyByBlockHash s" "latestBlockNumber s"]
      by (simp add: blocksFrom_def)
    then show ?thesis
      by (simp add: priv_delBlock_drops [OF inv Some True] storeInv_def dropFrom_def)
  qed
qed

lemma storeInv_deleteAllFollowingBlocks:
  assumes fu: "faithfulUpstream env" and inv: "storeInv env s"
  shows "storeInv env (snd (deleteAllFollowingBlocks env b s))"
  using inv storeInv_priv_delBlock [OF fu inv]
  by (simp add: deleteAllFollowingBlocks_def Let_def split: option.splits)

lemma storeInv_processRemoteTransaction:
  "storeInv env s \<Longrightarrow> storeInv env (snd (processRemoteTransaction env rt s))"
  by (simp add: processRemoteTransaction_def Let_def split: option.splits)

lemma storeInv_getTransaction:
  "storeInv env s \<Longrightarrow> storeInv env (snd (getTransaction env h s))"
  by (simp add: getTransaction_def storeInv_processRemoteTransaction
        split: option.splits sum.splits rpcResult.splits)

lemma storeInv_getBlockTotalDifficulty:
  assumes fu: "faithfulUpstream env" and inv: "storeInv env s"
  shows "storeInv env (snd (getBlockTotalDifficulty env h s))"
proof -
  obtain res s1 where g: "getBlock env (BlockHash h) s = (res, s1)"
    by (cases "getBlock env (BlockHash h) s")
  with storeInv_getBlock [OF fu inv, of "BlockHash h"] have "storeInv env s1" by simp
  with inv g show ?thesis
    by (simp add: getBlockTotalDifficulty_def split: option.splits sum.splits rpcResult.splits)
qed

lemma storeInv_getBlockByTransactionHash:
  assumes fu: "faithfulUpstream env" and inv: "storeInv env s"
  shows "storeInv env (snd (getBlockByTransactionHash env h s))"
proof (cases "transactionToBlock s h")
  case (Some a)
  with inv show ?thesis by (simp add: getBlockByTransactionHash_def)
next
  case None
  show ?thesis
  proof (cases "getTransactionByHash (jsonRpcClient env) h")
    case RpcFailure
    with None inv show ?thesis by (simp add: getBlockByTransactionHash_def)
  next
    case (RpcResult remote)
    obtain res s1 where p: "processRemoteTransaction env remote
        (callUpstream (CallGetTransactionByHash h) s) = (res, s1)"
      by (cases "processRemoteTransaction env remote (callUpstream (CallGetTransactionByHash h) s)")
    from storeInv_processRemoteTransaction [of env "callUpstream (CallGetTransactionByHash h) s" remote]
      inv p have inv1: "storeInv env s1" by simp
    have "\<And>bh. storeInv env (snd (getBlock env (BlockHash bh) s1))"
      by (rule storeInv_getBlock [OF fu inv1])
    then have "\<And>bh r s2. getBlock env (BlockHash bh) s1 = (r, s2) \<Longrightarrow> storeInv env s2"
      by (metis snd_conv)
    with None RpcResult p inv1 show ?thesis
      by (auto simp: getBlockByTransactionHash_def split: option.splits sum.splits rpcResult.splits prod.splits)
  qed
qed

theorem reachable_storeInv:
  assumes "faithfulUpstream env" "reachable env s"
  shows "storeInv env s"
  using assms(2)
proof (induction rule: reachable.induct)
  case reach_new
  show ?case by (simp add: storeInv_def indexInv_def newForkBlockchain_def)
next
  case (reach_getBlock s k)
  then show ?case by (simp add: storeInv_getBlock [OF assms(1)])
next
  case (reach_getLatestBlock s)
  then show ?case by (simp add: getLatestBlock_def storeInv_getBlock [OF assms(1)])
next
  case (reach_putBlock s blk)
  then show ?case by (simp add: storeInv_putBlock [OF assms(1)])
next
  case (reach_delBlock s h)
  then show ?case by (simp add: delBlock_def storeInv_priv_delBlock [OF assms(1)])
next
  case (reach_deleteAllFollowingBlocks s blk)
  then show ?case by (simp add: storeInv_deleteAllFollowingBlocks [OF assms(1)])
next
  case (reach_getBlockTotalDifficulty s h)
  then show ?case by (simp add: storeInv_getBlockTotalDifficulty [OF assms(1)])
next
  case (reach_getTransaction s h)
  then show ?case by (simp add: storeInv_getTransaction)
next
  case (reach_getBlockByTransactionHash s h)
  then show ?case by (simp add: storeInv_getBlockByTransactionHash [OF assms(1)])
qed

lemma getBlock_errors:
  assumes "fst (getBlock env k s) = Inl e"
  shows "e = BlockNotFound \<or> e = UpstreamError"
proof (cases k)
  case (BlockHash h)
  show ?thesis
  proof (cases rule: priv_getBlockByHash_cases [of s h env])
    case (cached b)
    with assms BlockHash show ?thesis by (simp add: getBlock_def)
  next
    case failed
    with assms BlockHash show ?thesis by (simp add: getBlock_def)
  next
    case (fetched rb)
    with assms BlockHash show ?thesis
      by (cases rule: processRemoteBlock_cases [of env rb "callUpstream (CallGetBlockByHash h) s"])
         (simp_all add: getBlock_def)
  qed
next
  case (BlockNumber n)
  show ?thesis
  proof (cases rule: priv_getBlockByNumber_cases [of s n env])
    case beyond
    with assms BlockNumber show ?thesis by (simp add: getBlock_def)
  next
    case (cached b)
    with assms BlockNumber show ?thesis by (simp add: getBlock_def)
  next
    case failed
    with assms BlockNumber show ?thesis by (simp add: getBlock_def)
  next
    case (fetched rb)
    with assms BlockNumber show ?thesis
      by (cases rule: processRemoteBlock_cases [of env rb "callUpstream (CallGetBlockByNumber n) s"])
         (simp_all add: getBlock_def)
  qed
qed

text \<open>What a successful lookup by number was: a cache hit, or the ingestion of the
  upstream's block at that number.\<close>

lemma getBlock_number_effect:
  assumes fu: "faithfulUpstream env" and g: "getBlock env (BlockNumber n) s = (Inr p, s1)"
  obtains (hit) "blocksByNumber s n = Some p" "s1 = s"
  | (load) r where "blocksByNumber s n = None" "p = rpcToBlock r" "rpcNumber r = Some n"
      "n \<le> forkBlockNumber env" "rpcHash r = Some (blockHash env p)"
      "s1 = processTransactions env p
              ((callUpstream (CallGetBlockByNumber n) s)
                 \<lparr>blocksByNumber := (blocksByNumber s)(n \<mapsto> p),
                  blocksByHash := (blocksByHash s)(blockHash env p \<mapsto> p),
                  totalDifficultyByBlockHash :=
                    (totalDifficultyByBlockHash s)(blockHash env p \<mapsto> rpcTotalDifficulty r)\<rparr>)"
proof (cases rule: priv_getBlockByNumber_cases [of s n env])
  case beyond
  with g show ?thesis by (simp add: getBlock_def)
next
  case (cached b)
  with g show ?thesis by (intro hit) (simp_all add: getBlock_def)
next
  case failed
  with g show ?thesis by (simp add: getBlock_def)
next
  case (fetched rb)
  with g have pr:
    "processRemoteBlock env rb (callUpstream (CallGetBlockByNumber n) s) = (Inr p, s1)"
    by (simp add: getBlock_def)
  show ?thesis
  proof (cases rule: processRemoteBlock_cases [of env rb "callUpstream (CallGetBlockByNumber n) s"])
    case missing
    with pr show ?thesis by simp
  next
    case (found r h m)
    with fetched(3) fu have "m = n" "h = blockHash env (rpcToBlock r)"
      unfolding faithfulUpstream_def by blast+
    with found pr fetched(2) show ?thesis by (intro load [of r]) auto
  qed
qed

section \<open>The invariant of the local suffix, for any upstream\<close>

lemma suffixInvD:
  assumes "suffixInv env bn bh l"
  shows "forkBlockNumber env \<le> l"
    and "\<And>i. forkBlockNumber env < i \<Longrightarrow> i \<le> l \<Longrightarrow> bn i \<noteq> None"
    and "\<And>h p. bh h = Some p \<Longrightarrow> forkBlockNumber env < number (header p) \<Longrightarrow>
          number (header p) \<le> l \<and> h = blockHash env p \<and> bn (number (header p)) = Some p"
  using assms unfolding suffixInv_def by blast+

lemma suffixInv_remote:
  assumes inv: "suffixInv env bn bh l"
    and m: "m \<le> forkBlockNumber env" and nB: "number (header B) = m"
  shows "suffixInv env (bn(m \<mapsto> B)) (bh(h \<mapsto> B)) l"
  unfolding suffixInv_def
proof (intro conjI allI impI)
  show "forkBlockNumber env \<le> l" by (rule suffixInvD(1) [OF inv])
next
  fix i assume "forkBlockNumber env < i \<and> i \<le> l"
  then show "(bn(m \<mapsto> B)) i \<noteq> None" using suffixInvD(2) [OF inv] by simp
next
  fix h' p assume a: "(bh(h \<mapsto> B)) h' = Some p \<and> forkBlockNumber env < number (header p)"
  then have "p \<noteq> B" using m nB by auto
  with a have old: "bh h' = Some p" by (auto split: if_splits)
  from suffixInvD(3) [OF inv old] a m
  show "number (header p) \<le> l" and "h' = blockHash env p"
    and "(bn(m \<mapsto> B)) (number (header p)) = Some p" by auto
qed

lemma suffixInv_put:
  assumes inv: "suffixInv env bn bh l" and nb: "number (header b) = Suc l"
  shows "suffixInv env (bn(Suc l \<mapsto> b)) (bh(blockHash env b \<mapsto> b)) (Suc l)"
  unfolding suffixInv_def
proof (intro conjI allI impI)
  show "forkBlockNumber env \<le> Suc l" using suffixInvD(1) [OF inv] by simp
next
  fix i assume "forkBlockNumber env < i \<and> i \<le> Suc l"
  then show "(bn(Suc l \<mapsto> b)) i \<noteq> None"
    using suffixInvD(2) [OF inv, of i] by (cases "i = Suc l") auto
next
  fix h' p
  assume a: "(bh(blockHash env b \<mapsto> b)) h' = Some p \<and> forkBlockNumber env < number (header p)"
  have "number (header p) \<le> Suc l \<and> h' = blockHash env p \<and>
        (bn(Suc l \<mapsto> b)) (number (header p)) = Some p"
  proof (cases "h' = blockHash env b")
    case True
    with a nb show ?thesis by simp
  next
    case False
    with a have old: "bh h' = Some p" by simp
    from suffixInvD(3) [OF inv old] a show ?thesis by auto
  qed
  then show "number (header p) \<le> Suc l" and "h' = blockHash env p"
    and "(bn(Suc l \<mapsto> b)) (number (header p)) = Some p" by simp_all
qed

lemma suffixInv_drop:
  assumes inv: "suffixInv env bn bh l"
    and n: "forkBlockNumber env < n" "n \<le> l"
    and D: "D = {b. \<exists>i. n \<le> i \<and> i \<le> l \<and> bn i = Some b}"
  shows "suffixInv env (\<lambda>i. if n \<le> i \<and> i \<le> l then None else bn i)
           (\<lambda>h. if h \<in> blockHash env ` D then None else bh h) (n - 1)"
  unfolding suffixInv_def
proof (intro conjI allI impI)
  show "forkBlockNumber env \<le> n - 1" using n by simp
next
  fix i assume "forkBlockNumber env < i \<and> i \<le> n - 1"
  then show "(if n \<le> i \<and> i \<le> l then None else bn i) \<noteq> None"
    using suffixInvD(2) [OF inv, of i] n by auto
next
  fix h' p
  assume a: "(if h' \<in> blockHash env ` D then None else bh h') = Some p \<and>
             forkBlockNumber env < number (header p)"
  then have nin: "h' \<notin> blockHash env ` D" and old: "bh h' = Some p"
    by (auto split: if_splits)
  from suffixInvD(3) [OF inv old] a
  have p: "number (header p) \<le> l" "h' = blockHash env p" "bn (number (header p)) = Some p"
    by auto
  have "\<not> n \<le> number (header p)"
  proof
    assume "n \<le> number (header p)"
    with p have "p \<in> D" unfolding D by blast
    with nin p(2) show False by blast
  qed
  with p show "number (header p) \<le> n - 1" and "h' = blockHash env p"
    and "(if n \<le> number (header p) \<and> number (header p) \<le> l then None
          else bn (number (header p))) = Some p" by auto
qed

lemma storeSuffixInv_cong:
  assumes "blocksByNumber s' = blocksByNumber s" "blocksByHash s' = blocksByHash s"
    "latestBlockNumber s' = latestBlockNumber s"
  shows "storeSuffixInv env s' = storeSuffixInv env s"
  by (simp add: storeSuffixInv_def assms)

lemma storeSuffixInv_processRemoteBlock:
  assumes "storeSuffixInv env s"
  shows "storeSuffixInv env (snd (processRemoteBlock env rb s))"
proof (cases rule: processRemoteBlock_cases [of env rb s])
  case missing
  with assms show ?thesis by simp
next
  case (found r h n)
  have "number (header (rpcToBlock r)) = n" using found(3) by simp
  from suffixInv_remote [OF assms [unfolded storeSuffixInv_def] found(4) this, of h]
  show ?thesis by (simp add: found(5) storeSuffixInv_def)
qed

lemma storeSuffixInv_getBlock:
  assumes "storeSuffixInv env s"
  shows "storeSuffixInv env (snd (getBlock env k s))"
proof (cases k)
  case (BlockHash h)
  have c: "storeSuffixInv env (callUpstream (CallGetBlockByHash h) s)"
    using assms by (simp add: storeSuffixInv_def)
  show ?thesis
    using assms storeSuffixInv_processRemoteBlock [OF c]
    by (cases rule: priv_getBlockByHash_cases [of s h env])
       (simp_all add: getBlock_def BlockHash storeSuffixInv_def)
next
  case (BlockNumber n)
  have c: "storeSuffixInv env (callUpstream (CallGetBlockByNumber n) s)"
    using assms by (simp add: storeSuffixInv_def)
  show ?thesis
    using assms storeSuffixInv_processRemoteBlock [OF c]
    by (cases rule: priv_getBlockByNumber_cases [of s n env])
       (simp_all add: getBlock_def BlockNumber storeSuffixInv_def)
qed

lemma computeTotalDifficulty_state:
  "snd (computeTotalDifficulty env blk s) = s \<or>
   snd (computeTotalDifficulty env blk s) =
     snd (getBlock env (BlockNumber (number (header blk) - 1)) s)"
  by (simp add: computeTotalDifficulty_def Let_def split: option.splits prod.splits sum.splits)

lemma storeSuffixInv_computeTotalDifficulty:
  assumes "storeSuffixInv env s"
  shows "storeSuffixInv env (snd (computeTotalDifficulty env blk s))"
  using computeTotalDifficulty_state [of env blk s] assms storeSuffixInv_getBlock [OF assms]
  by auto

lemma computeTotalDifficulty_latest [simp]:
  "latestBlockNumber (snd (computeTotalDifficulty env blk s)) = latestBlockNumber s"
  using computeTotalDifficulty_state [of env blk s] by auto

lemma storeSuffixInv_putBlock:
  assumes inv: "storeSuffixInv env s"
  shows "storeSuffixInv env (snd (putBlock env b s))"
proof (cases "number (header b) = latestBlockNumber s + 1")
  case False
  with inv show ?thesis by (simp add: putBlock_def)
next
  case nb: True
  obtain res s1 where latest: "getLatestBlock env s = (res, s1)" by (cases "getLatestBlock env s")
  then have s1: "s1 = snd (getBlock env (BlockNumber (latestBlockNumber s)) s)"
    by (simp add: getLatestBlock_def)
  have inv1: "storeSuffixInv env s1" unfolding s1 by (rule storeSuffixInv_getBlock [OF inv])
  have L1: "latestBlockNumber s1 = latestBlockNumber s" unfolding s1 by simp
  show ?thesis
  proof (cases res)
    case (Inl e)
    with latest nb inv1 show ?thesis by (simp add: putBlock_def)
  next
    case (Inr p)
    show ?thesis
    proof (cases "parentHash (header b) = blockHash env p")
      case False
      with latest nb inv1 Inr show ?thesis by (simp add: putBlock_def)
    next
      case True
      define s4 where "s4 = s1\<lparr>latestBlockNumber := latestBlockNumber s1 + 1,
         blocksByNumber := (blocksByNumber s1)(number (header b) \<mapsto> b),
         blocksByHash := (blocksByHash s1)(blockHash env b \<mapsto> b)\<rparr>"
      have inv4: "storeSuffixInv env s4"
        using suffixInv_put [OF inv1 [unfolded storeSuffixInv_def], of b] nb
        by (simp add: s4_def storeSuffixInv_def L1)
      obtain r5 s5 where c: "computeTotalDifficulty env b s4 = (r5, s5)"
        by (cases "computeTotalDifficulty env b s4")
      with storeSuffixInv_computeTotalDifficulty [OF inv4, of b]
      have inv5: "storeSuffixInv env s5" by simp
      have "putBlock env b s =
              (case r5 of Inl e \<Rightarrow> (Inl e, s5)
               | Inr td \<Rightarrow> (Inr b, processTransactions env b
                   (s5\<lparr>totalDifficultyByBlockHash :=
                        (totalDifficultyByBlockHash s5)(blockHash env b \<mapsto> td)\<rparr>)))"
        using nb latest Inr True c by (simp add: putBlock_def Let_def s4_def)
      then show ?thesis
        using inv5 by (cases r5) (simp_all add: storeSuffixInv_def)
    qed
  qed
qed

lemma priv_delBlock_gapfree:
  assumes b: "blocksByHash s h = Some b"
    and loc: "forkBlockNumber env < number (header b)"
    and gap: "\<forall>k. number (header b) \<le> k \<and> k \<le> latestBlockNumber s \<longrightarrow>
                blocksByNumber s k \<noteq> None"
  shows "priv_delBlock env h s =
           (Inr (), (dropFrom env (number (header b)) s)
                      \<lparr>latestBlockNumber := number (header b) - 1\<rparr>)"
  using deleteFrom_dropFrom [OF gap, of env] b loc
  by (simp add: priv_delBlock_def Let_def)

lemma priv_delBlock_suffix:
  assumes inv: "storeSuffixInv env s" and b: "blocksByHash s h = Some b"
    and loc: "forkBlockNumber env < number (header b)"
  shows "priv_delBlock env h s =
           (Inr (), (dropFrom env (number (header b)) s)
                      \<lparr>latestBlockNumber := number (header b) - 1\<rparr>)"
proof (rule priv_delBlock_gapfree [OF b loc])
  show "\<forall>k. number (header b) \<le> k \<and> k \<le> latestBlockNumber s \<longrightarrow>
                blocksByNumber s k \<noteq> None"
    using suffixInvD(2) [OF inv [unfolded storeSuffixInv_def]] loc by auto
qed

lemma storeSuffixInv_priv_delBlock:
  assumes inv: "storeSuffixInv env s"
  shows "storeSuffixInv env (snd (priv_delBlock env h s))"
proof (cases "blocksByHash s h")
  case None
  with inv show ?thesis by (simp add: priv_delBlock_def)
next
  case (Some b)
  show ?thesis
  proof (cases "forkBlockNumber env < number (header b)")
    case False
    with Some inv show ?thesis by (simp add: priv_delBlock_def)
  next
    case True
    from suffixInvD(3) [OF inv [unfolded storeSuffixInv_def] Some True]
    have le: "number (header b) \<le> latestBlockNumber s" by simp
    from suffixInv_drop [OF inv [unfolded storeSuffixInv_def] True le refl]
    show ?thesis
      by (simp add: priv_delBlock_suffix [OF inv Some True] storeSuffixInv_def dropFrom_def
            blocksFrom_def)
  qed
qed

lemma storeSuffixInv_getBlockByTransactionHash:
  assumes inv: "storeSuffixInv env s"
  shows "storeSuffixInv env (snd (getBlockByTransactionHash env h s))"
proof (cases "transactionToBlock s h")
  case (Some a)
  with inv show ?thesis by (simp add: getBlockByTransactionHash_def)
next
  case None
  show ?thesis
  proof (cases "getTransactionByHash (jsonRpcClient env) h")
    case RpcFailure
    with None inv show ?thesis
      by (simp add: getBlockByTransactionHash_def storeSuffixInv_def)
  next
    case (RpcResult remote)
    obtain res s1 where p: "processRemoteTransaction env remote
        (callUpstream (CallGetTransactionByHash h) s) = (res, s1)"
      by (cases "processRemoteTransaction env remote (callUpstream (CallGetTransactionByHash h) s)")
    then have inv1: "storeSuffixInv env s1"
      using inv
      by (auto simp: processRemoteTransaction_def Let_def storeSuffixInv_def
            split: option.splits if_splits)
    have "\<And>bh. storeSuffixInv env (snd (getBlock env (BlockHash bh) s1))"
      by (rule storeSuffixInv_getBlock [OF inv1])
    then have "\<And>bh r s2. getBlock env (BlockHash bh) s1 = (r, s2) \<Longrightarrow> storeSuffixInv env s2"
      by (metis snd_conv)
    with None RpcResult p inv1 show ?thesis
      by (auto simp: getBlockByTransactionHash_def
            split: option.splits sum.splits prod.splits)
  qed
qed

lemma reachable_storeSuffixInv:
  assumes "reachable env s"
  shows "storeSuffixInv env s"
  using assms
proof (induction rule: reachable.induct)
  case reach_new
  show ?case by (simp add: storeSuffixInv_def suffixInv_def newForkBlockchain_def)
next
  case (reach_getBlock s k)
  then show ?case by (simp add: storeSuffixInv_getBlock)
next
  case (reach_getLatestBlock s)
  then show ?case by (simp add: getLatestBlock_def storeSuffixInv_getBlock)
next
  case (reach_putBlock s blk)
  then show ?case by (simp add: storeSuffixInv_putBlock)
next
  case (reach_delBlock s h)
  then show ?case by (simp add: delBlock_def storeSuffixInv_priv_delBlock)
next
  case (reach_deleteAllFollowingBlocks s blk)
  then show ?case
    using storeSuffixInv_priv_delBlock [of env s]
    by (simp add: deleteAllFollowingBlocks_def Let_def split: option.splits)
next
  case (reach_getBlockTotalDifficulty s h)
  obtain res s1 where g: "getBlock env (BlockHash h) s = (res, s1)"
    by (cases "getBlock env (BlockHash h) s")
  with storeSuffixInv_getBlock [OF reach_getBlockTotalDifficulty.IH, of "BlockHash h"]
  have "storeSuffixInv env s1" by simp
  with reach_getBlockTotalDifficulty.IH g show ?case
    by (simp add: getBlockTotalDifficulty_def split: option.splits sum.splits)
next
  case (reach_getTransaction s h)
  then show ?case
    by (auto simp: getTransaction_def processRemoteTransaction_def Let_def storeSuffixInv_def
          split: option.splits rpcResult.splits if_splits)
next
  case (reach_getBlockByTransactionHash s h)
  then show ?case by (simp add: storeSuffixInv_getBlockByTransactionHash)
qed

section \<open>The invariant of the transaction indexes, for any upstream\<close>

lemma txIndexInv_indexTransactions:
  assumes "txIndexInv s"
  shows "txIndexInv (indexTransactions env blk ts s)"
  unfolding txIndexInv_def
proof (intro allI impI)
  fix h
  assume tb: "transactionToBlock (indexTransactions env blk ts s) h \<noteq> None"
  show "txByHash (indexTransactions env blk ts s) h \<noteq> None"
  proof (cases "h \<in> txHash env ` set ts")
    case True
    from txByHash_indexTransactions_in [OF True, of blk s] show ?thesis by auto
  next
    case False
    with tb assms show ?thesis
      by (simp add: transactionToBlock_indexTransactions txByHash_indexTransactions_other
            txIndexInv_def)
  qed
qed

lemma txIndexInv_processRemoteBlock:
  assumes "txIndexInv s"
  shows "txIndexInv (snd (processRemoteBlock env rb s))"
proof (cases rule: processRemoteBlock_cases [of env rb s])
  case missing
  with assms show ?thesis by simp
next
  case (found r h n)
  have "txIndexInv (s\<lparr>blocksByNumber := (blocksByNumber s)(n \<mapsto> rpcToBlock r),
               blocksByHash := (blocksByHash s)(h \<mapsto> rpcToBlock r),
               totalDifficultyByBlockHash :=
                 (totalDifficultyByBlockHash s)(h \<mapsto> rpcTotalDifficulty r)\<rparr>)"
    using assms by (simp add: txIndexInv_def)
  then show ?thesis
    by (simp add: found(5) processTransactions_def txIndexInv_indexTransactions)
qed

lemma txIndexInv_getBlock:
  assumes "txIndexInv s"
  shows "txIndexInv (snd (getBlock env k s))"
proof (cases k)
  case (BlockHash h)
  have c: "txIndexInv (callUpstream (CallGetBlockByHash h) s)"
    using assms by (simp add: txIndexInv_def)
  show ?thesis
    using assms c txIndexInv_processRemoteBlock [OF c]
    by (cases rule: priv_getBlockByHash_cases [of s h env])
       (simp_all add: getBlock_def BlockHash)
next
  case (BlockNumber n)
  have c: "txIndexInv (callUpstream (CallGetBlockByNumber n) s)"
    using assms by (simp add: txIndexInv_def)
  show ?thesis
    using assms c txIndexInv_processRemoteBlock [OF c]
    by (cases rule: priv_getBlockByNumber_cases [of s n env])
       (simp_all add: getBlock_def BlockNumber)
qed

lemma txIndexInv_computeTotalDifficulty:
  assumes "txIndexInv s"
  shows "txIndexInv (snd (computeTotalDifficulty env blk s))"
  using computeTotalDifficulty_state [of env blk s] assms txIndexInv_getBlock [OF assms]
  by auto

lemma txIndexInv_putBlock:
  assumes inv: "txIndexInv s"
  shows "txIndexInv (snd (putBlock env b s))"
proof (cases "number (header b) = latestBlockNumber s + 1")
  case False
  with inv show ?thesis by (simp add: putBlock_def)
next
  case nb: True
  obtain res s1 where latest: "getLatestBlock env s = (res, s1)" by (cases "getLatestBlock env s")
  then have s1: "s1 = snd (getBlock env (BlockNumber (latestBlockNumber s)) s)"
    by (simp add: getLatestBlock_def)
  have inv1: "txIndexInv s1" unfolding s1 by (rule txIndexInv_getBlock [OF inv])
  show ?thesis
  proof (cases res)
    case (Inl e)
    with latest nb inv1 show ?thesis by (simp add: putBlock_def)
  next
    case (Inr p)
    show ?thesis
    proof (cases "parentHash (header b) = blockHash env p")
      case False
      with latest nb inv1 Inr show ?thesis by (simp add: putBlock_def)
    next
      case True
      define s4 where "s4 = s1\<lparr>latestBlockNumber := latestBlockNumber s1 + 1,
         blocksByNumber := (blocksByNumber s1)(number (header b) \<mapsto> b),
         blocksByHash := (blocksByHash s1)(blockHash env b \<mapsto> b)\<rparr>"
      have inv4: "txIndexInv s4" using inv1 by (simp add: s4_def txIndexInv_def)
      obtain r5 s5 where c: "computeTotalDifficulty env b s4 = (r5, s5)"
        by (cases "computeTotalDifficulty env b s4")
      with txIndexInv_computeTotalDifficulty [OF inv4, of env b]
      have inv5: "txIndexInv s5" by simp
      then have inv6: "\<And>td. txIndexInv (s5\<lparr>totalDifficultyByBlockHash :=
                        (totalDifficultyByBlockHash s5)(blockHash env b \<mapsto> td)\<rparr>)"
        by (simp add: txIndexInv_def)
      have "putBlock env b s =
              (case r5 of Inl e \<Rightarrow> (Inl e, s5)
               | Inr td \<Rightarrow> (Inr b, processTransactions env b
                   (s5\<lparr>totalDifficultyByBlockHash :=
                        (totalDifficultyByBlockHash s5)(blockHash env b \<mapsto> td)\<rparr>)))"
        using nb latest Inr True c by (simp add: putBlock_def Let_def s4_def)
      then show ?thesis
        using inv5 inv6
        by (cases r5) (simp_all add: processTransactions_def txIndexInv_indexTransactions)
    qed
  qed
qed

lemma txIndexInv_priv_delBlock:
  assumes sx: "storeSuffixInv env s" and inv: "txIndexInv s"
  shows "txIndexInv (snd (priv_delBlock env h s))"
proof (cases "blocksByHash s h")
  case None
  with inv show ?thesis by (simp add: priv_delBlock_def)
next
  case (Some b)
  show ?thesis
  proof (cases "forkBlockNumber env < number (header b)")
    case False
    with Some inv show ?thesis by (simp add: priv_delBlock_def)
  next
    case True
    show ?thesis
      using inv
      by (simp add: priv_delBlock_suffix [OF sx Some True] txIndexInv_def dropFrom_def)
  qed
qed

lemma txIndexInv_processRemoteTransaction:
  assumes "txIndexInv s"
  shows "txIndexInv (snd (processRemoteTransaction env rt s))"
  using assms
  by (auto simp: processRemoteTransaction_def Let_def txIndexInv_def
        split: option.splits if_splits)

lemma txIndexInv_getBlockByTransactionHash:
  assumes inv: "txIndexInv s"
  shows "txIndexInv (snd (getBlockByTransactionHash env h s))"
proof (cases "transactionToBlock s h")
  case (Some a)
  with inv show ?thesis by (simp add: getBlockByTransactionHash_def)
next
  case None
  show ?thesis
  proof (cases "getTransactionByHash (jsonRpcClient env) h")
    case RpcFailure
    with None inv show ?thesis
      by (simp add: getBlockByTransactionHash_def txIndexInv_def)
  next
    case (RpcResult remote)
    have c: "txIndexInv (callUpstream (CallGetTransactionByHash h) s)"
      using inv by (simp add: txIndexInv_def)
    obtain res s1 where p: "processRemoteTransaction env remote
        (callUpstream (CallGetTransactionByHash h) s) = (res, s1)"
      by (cases "processRemoteTransaction env remote (callUpstream (CallGetTransactionByHash h) s)")
    with txIndexInv_processRemoteTransaction [OF c, of env remote]
    have inv1: "txIndexInv s1" by simp
    have "\<And>bh. txIndexInv (snd (getBlock env (BlockHash bh) s1))"
      by (rule txIndexInv_getBlock [OF inv1])
    then have "\<And>bh r s2. getBlock env (BlockHash bh) s1 = (r, s2) \<Longrightarrow> txIndexInv s2"
      by (metis snd_conv)
    with None RpcResult p inv1 show ?thesis
      by (auto simp: getBlockByTransactionHash_def
            split: option.splits sum.splits prod.splits)
  qed
qed

lemma reachable_txIndexInv:
  assumes "reachable env s"
  shows "txIndexInv s"
  using assms
proof (induction rule: reachable.induct)
  case reach_new
  show ?case by (simp add: txIndexInv_def newForkBlockchain_def)
next
  case (reach_getBlock s k)
  then show ?case by (simp add: txIndexInv_getBlock)
next
  case (reach_getLatestBlock s)
  then show ?case by (simp add: getLatestBlock_def txIndexInv_getBlock)
next
  case (reach_putBlock s blk)
  then show ?case by (simp add: txIndexInv_putBlock)
next
  case (reach_delBlock s h)
  then show ?case
    by (simp add: delBlock_def txIndexInv_priv_delBlock reachable_storeSuffixInv)
next
  case (reach_deleteAllFollowingBlocks s blk)
  then show ?case
    using txIndexInv_priv_delBlock [OF reachable_storeSuffixInv, of env s]
    by (simp add: deleteAllFollowingBlocks_def Let_def split: option.splits)
next
  case (reach_getBlockTotalDifficulty s h)
  obtain res s1 where g: "getBlock env (BlockHash h) s = (res, s1)"
    by (cases "getBlock env (BlockHash h) s")
  with txIndexInv_getBlock [OF reach_getBlockTotalDifficulty.IH, of env "BlockHash h"]
  have "txIndexInv s1" by simp
  with reach_getBlockTotalDifficulty.IH g show ?case
    by (simp add: getBlockTotalDifficulty_def split: option.splits sum.splits)
next
  case (reach_getTransaction s h)
  have c: "txIndexInv (callUpstream (CallGetTransactionByHash h) s)"
    using reach_getTransaction.IH by (simp add: txIndexInv_def)
  from reach_getTransaction.IH txIndexInv_processRemoteTransaction [OF c, of env] c
  show ?case
    by (auto simp: getTransaction_def split: option.splits rpcResult.splits)
next
  case (reach_getBlockByTransactionHash s h)
  then show ?case by (simp add: txIndexInv_getBlockByTransactionHash)
qed

section \<open>The example world is faithful\<close>

lemma encodeBlock_eq [simp]: "encodeBlock a = encodeBlock b \<longleftrightarrow> a = b"
proof
  assume h: "encodeBlock a = encodeBlock b"
  then have "map raw (transactions a) = map raw (transactions b)"
    by (simp add: encodeBlock_def list_encode_eq)
  then have "transactions a = transactions b"
    by (simp add: inj_map_eq_map inj_def transaction.expand)
  moreover have "header a = header b" using h by (simp add: encodeBlock_def)
  ultimately show "a = b" by simp
qed simp

lemma rpcToBlock_asRpcBlock [simp]: "rpcToBlock (asRpcBlock b td) = b"
  by (simp add: rpcToBlock_def asRpcBlock_def asRpcTx_def rpcToTx_def comp_def)

lemma asRpcBlock_fields [simp]:
  "rpcHash (asRpcBlock b td) = Some (encodeBlock b)"
  "rpcNumber (asRpcBlock b td) = Some (number (header b))"
  "rpcTotalDifficulty (asRpcBlock b td) = td"
  by (simp_all add: asRpcBlock_def)

lemma exampleEnv_fields [simp]:
  "forkBlockNumber exampleEnv = 1"
  "blockHash exampleEnv = encodeBlock"
  "txHash exampleEnv = raw"
  "getBlockByNumber (jsonRpcClient exampleEnv) n = RpcResult
         (if n = 0 then Some (asRpcBlock genesis0 10)
          else if n = 1 then Some (asRpcBlock base1 30)
          else if n = 2 then Some (asRpcBlock ahead2 60)
          else None)"
  "getBlockByHash (jsonRpcClient exampleEnv) h = RpcResult
         (if h = encodeBlock genesis0 then Some (asRpcBlock genesis0 10)
          else if h = encodeBlock base1 then Some (asRpcBlock base1 30)
          else if h = encodeBlock ahead2 then Some (asRpcBlock ahead2 60)
          else None)"
  by (simp_all add: exampleEnv_def exampleClient_def)

lemma example_numbers [simp]:
  "number (header genesis0) = 0" "number (header base1) = 1" "number (header ahead2) = 2"
  "number (header local2) = 2" "number (header local3) = 3" "number (header stray2) = 2"
  by (simp_all add: genesis0_def base1_def ahead2_def local2_def local3_def stray2_def)

lemma faithful_exampleEnv: "faithfulUpstream exampleEnv"
  unfolding faithfulUpstream_def
proof (intro conjI allI impI)
  show "inj (blockHash exampleEnv)" by (simp add: inj_def)
next
  fix n r h m
  assume "getBlockByNumber (jsonRpcClient exampleEnv) n = RpcResult (Some r) \<and>
          rpcHash r = Some h \<and> rpcNumber r = Some m"
  then show "m = n" by (auto split: if_splits)
next
  fix n r h m
  assume "getBlockByNumber (jsonRpcClient exampleEnv) n = RpcResult (Some r) \<and>
          rpcHash r = Some h \<and> rpcNumber r = Some m"
  then show "h = blockHash exampleEnv (rpcToBlock r)" by (auto split: if_splits)
next
  fix h r h' m
  assume "getBlockByHash (jsonRpcClient exampleEnv) h = RpcResult (Some r) \<and>
          rpcHash r = Some h' \<and> rpcNumber r = Some m"
  then show "h' = h" by (auto split: if_splits)
next
  fix h r h' m
  assume "getBlockByHash (jsonRpcClient exampleEnv) h = RpcResult (Some r) \<and>
          rpcHash r = Some h' \<and> rpcNumber r = Some m"
  then show "getBlockByNumber (jsonRpcClient exampleEnv) m = RpcResult (Some r)"
    by (auto split: if_splits)
qed

lemma consistent_exampleEnv: "consistentTotals exampleEnv"
  by (simp add: consistentTotals_def asRpcBlock_def genesis0_def base1_def)

lemma sameIndexes_callUpstream [simp]: "sameIndexes (callUpstream c s) s"
  by (simp add: sameIndexes_def)

lemma sameIndexes_refl [simp]: "sameIndexes s s"
  by (simp add: sameIndexes_def)

lemma newForkBlockchain_fields [simp]:
  "blocksByNumber (newForkBlockchain env) = Map.empty"
  "blocksByHash (newForkBlockchain env) = Map.empty"
  "totalDifficultyByBlockHash (newForkBlockchain env) = Map.empty"
  "txByHash (newForkBlockchain env) = Map.empty"
  "transactionToBlock (newForkBlockchain env) = Map.empty"
  "latestBlockNumber (newForkBlockchain env) = forkBlockNumber env"
  "upstreamCalls (newForkBlockchain env) = []"
  by (simp_all add: newForkBlockchain_def)

section \<open>The example world, run\<close>

lemma example_blocks [simp]:
  "transactions genesis0 = []" "transactions base1 = [Transaction 11]"
  "transactions ahead2 = [Transaction 21]" "transactions local2 = [Transaction 77]"
  "transactions local3 = [Transaction 78, Transaction 79]"
  "transactions stray2 = [Transaction 11]"
  "parentHash (header base1) = encodeBlock genesis0"
  "parentHash (header local2) = encodeBlock base1"
  "parentHash (header local3) = encodeBlock local2"
  "parentHash (header stray2) = encodeBlock genesis0"
  "difficulty (header base1) = 20" "difficulty (header local2) = 7"
  "difficulty (header local3) = 5" "difficulty (header stray2) = 7"
  by (simp_all add: genesis0_def base1_def ahead2_def local2_def local3_def stray2_def)

lemma example_distinct [simp]:
  "genesis0 \<noteq> base1" "base1 \<noteq> genesis0" "genesis0 \<noteq> local2" "local2 \<noteq> genesis0"
  "genesis0 \<noteq> local3" "local3 \<noteq> genesis0" "genesis0 \<noteq> ahead2" "ahead2 \<noteq> genesis0"
  "base1 \<noteq> local2" "local2 \<noteq> base1" "base1 \<noteq> local3" "local3 \<noteq> base1"
  "base1 \<noteq> ahead2" "ahead2 \<noteq> base1" "base1 \<noteq> stray2" "stray2 \<noteq> base1"
  "local2 \<noteq> local3" "local3 \<noteq> local2" "local2 \<noteq> ahead2" "ahead2 \<noteq> local2"
  "local3 \<noteq> ahead2" "ahead2 \<noteq> local3"
  by (auto dest: arg_cong [where f = "\<lambda>b. number (header b)"]
            arg_cong [where f = "\<lambda>b. difficulty (header b)"] simp: ahead2_def)

lemma run_getLatestBlock:
  "getLatestBlock exampleEnv (newForkBlockchain exampleEnv) = (Inr base1, forkedStore)"
  by (simp add: getLatestBlock_def getBlock_def priv_getBlockByNumber_def
        processRemoteBlock_def processTransactions_def callUpstream_def
        newForkBlockchain_def forkedStore_def)

lemma run_putBlock_local2:
  "putBlock exampleEnv local2 (newForkBlockchain exampleEnv) = (Inr local2, oneLocalStore)"
  by (simp add: putBlock_def run_getLatestBlock computeTotalDifficulty_def
        processTransactions_def forkedStore_def oneLocalStore_def Let_def)

lemma run_putBlock_local3:
  "putBlock exampleEnv local3 oneLocalStore = (Inr local3, twoLocalStore)"
  by (simp add: putBlock_def getLatestBlock_def getBlock_def priv_getBlockByNumber_def
        computeTotalDifficulty_def processTransactions_def oneLocalStore_def twoLocalStore_def
        Let_def)

lemma reachable_forkedStore: "reachable exampleEnv forkedStore"
  using reach_getLatestBlock [OF reach_new, of exampleEnv] by (simp add: run_getLatestBlock)

lemma reachable_oneLocalStore: "reachable exampleEnv oneLocalStore"
  using reach_putBlock [OF reach_new, of exampleEnv local2] by (simp add: run_putBlock_local2)

lemma reachable_twoLocalStore: "reachable exampleEnv twoLocalStore"
  using reach_putBlock [OF reachable_oneLocalStore, of local3] by (simp add: run_putBlock_local3)

lemma run_putBlock_stray2:
  "putBlock exampleEnv stray2 (newForkBlockchain exampleEnv) =
     (Inl InvalidParentHash, forkedStore)"
  by (simp add: putBlock_def run_getLatestBlock)

lemma run_putBlock_local3_early:
  "putBlock exampleEnv local3 (newForkBlockchain exampleEnv) =
     (Inl InvalidBlockNumber, newForkBlockchain exampleEnv)"
  by (simp add: putBlock_def)

lemma example_store_fields [simp]:
  "latestBlockNumber forkedStore = 1" "latestBlockNumber oneLocalStore = 2"
  "latestBlockNumber twoLocalStore = 3"
  "blocksByNumber forkedStore = [1 \<mapsto> base1]"
  "blocksByNumber oneLocalStore = [1 \<mapsto> base1, 2 \<mapsto> local2]"
  "blocksByNumber twoLocalStore = [1 \<mapsto> base1, 2 \<mapsto> local2, 3 \<mapsto> local3]"
  "blocksByHash forkedStore = [encodeBlock base1 \<mapsto> base1]"
  "blocksByHash oneLocalStore = [encodeBlock base1 \<mapsto> base1, encodeBlock local2 \<mapsto> local2]"
  "blocksByHash twoLocalStore =
     [encodeBlock base1 \<mapsto> base1, encodeBlock local2 \<mapsto> local2, encodeBlock local3 \<mapsto> local3]"
  "totalDifficultyByBlockHash forkedStore = [encodeBlock base1 \<mapsto> 30]"
  "totalDifficultyByBlockHash oneLocalStore =
     [encodeBlock base1 \<mapsto> 30, encodeBlock local2 \<mapsto> 37]"
  "totalDifficultyByBlockHash twoLocalStore =
     [encodeBlock base1 \<mapsto> 30, encodeBlock local2 \<mapsto> 37, encodeBlock local3 \<mapsto> 42]"
  "txByHash forkedStore = [11 \<mapsto> Transaction 11]"
  "txByHash oneLocalStore = [11 \<mapsto> Transaction 11, 77 \<mapsto> Transaction 77]"
  "txByHash twoLocalStore =
     [11 \<mapsto> Transaction 11, 77 \<mapsto> Transaction 77, 78 \<mapsto> Transaction 78,
      79 \<mapsto> Transaction 79]"
  "transactionToBlock forkedStore = [11 \<mapsto> base1]"
  by (simp_all add: forkedStore_def oneLocalStore_def twoLocalStore_def)

lemma blocksFrom_twoLocalStore:
  "blocksFrom twoLocalStore 2 = {local2, local3}" "blocksFrom twoLocalStore 3 = {local3}"
proof -
  have "\<And>i::nat. 2 \<le> i \<and> i \<le> 3 \<longleftrightarrow> i = 2 \<or> i = 3" by auto
  then show "blocksFrom twoLocalStore 2 = {local2, local3}"
    by (auto simp: blocksFrom_def)
  have "\<And>i::nat. 3 \<le> i \<and> i \<le> 3 \<longleftrightarrow> i = 3" by auto
  then show "blocksFrom twoLocalStore 3 = {local3}"
    by (auto simp: blocksFrom_def)
qed

lemma blocksFrom_oneLocalStore: "blocksFrom oneLocalStore 2 = {local2}"
proof -
  have "\<And>i::nat. 2 \<le> i \<and> i \<le> 2 \<longleftrightarrow> i = 2" by auto
  then show ?thesis by (auto simp: blocksFrom_def)
qed

lemma run_delBlock_local2:
  "delBlock exampleEnv (encodeBlock local2) oneLocalStore =
     (Inr (), (dropFrom exampleEnv 2 oneLocalStore)\<lparr>latestBlockNumber := 1\<rparr>)"
proof -
  have inv: "storeInv exampleEnv oneLocalStore"
    by (rule reachable_storeInv [OF faithful_exampleEnv reachable_oneLocalStore])
  have "priv_delBlock exampleEnv (encodeBlock local2) oneLocalStore =
          (Inr (), (dropFrom exampleEnv (number (header local2)) oneLocalStore)
                     \<lparr>latestBlockNumber := number (header local2) - 1\<rparr>)"
    by (rule priv_delBlock_drops [OF inv]) simp_all
  then show ?thesis by (simp add: delBlock_def)
qed

lemma replay2_fields [simp]:
  "number (header replay2) = 2" "parentHash (header replay2) = encodeBlock base1"
  "difficulty (header replay2) = 7" "transactions replay2 = [Transaction 11]"
  "replay2 \<noteq> base1" "base1 \<noteq> replay2"
  by (auto simp: replay2_def dest: arg_cong [where f = "\<lambda>b. number (header b)"])

lemma run_getTransaction_11:
  "getTransaction exampleEnv 11 (newForkBlockchain exampleEnv) =
     (Inr (Transaction 11),
      (newForkBlockchain exampleEnv)
        \<lparr>txByHash := [11 \<mapsto> Transaction 11],
         upstreamCalls := [CallGetTransactionByHash 11]\<rparr>)"
proof -
  have "getTransactionByHash (jsonRpcClient exampleEnv) 11 =
          RpcResult (Some (asRpcTx base1 (Transaction 11)))"
    by (simp add: exampleEnv_def exampleClient_def)
  then show ?thesis
    by (simp add: getTransaction_def processRemoteTransaction_def asRpcTx_def rpcToTx_def
          Let_def callUpstream_def newForkBlockchain_def)
qed

lemma run_getLatestBlock_fetched:
  "getLatestBlock exampleEnv
     ((newForkBlockchain exampleEnv)
        \<lparr>txByHash := [11 \<mapsto> Transaction 11],
         upstreamCalls := [CallGetTransactionByHash 11]\<rparr>) = (Inr base1, fetchedStore)"
  by (simp add: getLatestBlock_def getBlock_def priv_getBlockByNumber_def
        processRemoteBlock_def processTransactions_def callUpstream_def
        newForkBlockchain_def fetchedStore_def)

lemma reachable_fetchedStore: "reachable exampleEnv fetchedStore"
  using reach_getLatestBlock [OF reach_getTransaction [OF reach_new], of exampleEnv 11]
  by (simp add: run_getTransaction_11 run_getLatestBlock_fetched)

lemma fetchedStore_fields [simp]:
  "latestBlockNumber fetchedStore = 1"
  "blocksByNumber fetchedStore = [1 \<mapsto> base1]"
  "blocksByHash fetchedStore = [encodeBlock base1 \<mapsto> base1]"
  "totalDifficultyByBlockHash fetchedStore = [encodeBlock base1 \<mapsto> 30]"
  "txByHash fetchedStore = [11 \<mapsto> Transaction 11]"
  "transactionToBlock fetchedStore = [11 \<mapsto> base1]"
  by (simp_all add: fetchedStore_def)

lemma run_putBlock_replay2:
  "putBlock exampleEnv replay2 fetchedStore =
     (Inr replay2,
      fetchedStore
        \<lparr>latestBlockNumber := 2,
         blocksByNumber := [1 \<mapsto> base1, 2 \<mapsto> replay2],
         blocksByHash := [encodeBlock base1 \<mapsto> base1, encodeBlock replay2 \<mapsto> replay2],
         totalDifficultyByBlockHash := [encodeBlock base1 \<mapsto> 30, encodeBlock replay2 \<mapsto> 37],
         txByHash := [11 \<mapsto> Transaction 11],
         transactionToBlock := [11 \<mapsto> replay2]\<rparr>)"
  by (simp add: putBlock_def getLatestBlock_def getBlock_def priv_getBlockByNumber_def
        computeTotalDifficulty_def processTransactions_def fetchedStore_def Let_def)

lemma run_delBlock_replay2:
  "txByHash (snd (delBlock exampleEnv (encodeBlock replay2)
                    (snd (putBlock exampleEnv replay2 fetchedStore)))) 11 = None \<and>
   fst (delBlock exampleEnv (encodeBlock replay2)
          (snd (putBlock exampleEnv replay2 fetchedStore))) = Inr ()"
proof -
  define s1 where "s1 = snd (putBlock exampleEnv replay2 fetchedStore)"
  have re: "reachable exampleEnv s1"
    unfolding s1_def by (rule reach_putBlock [OF reachable_fetchedStore])
  have inv: "storeInv exampleEnv s1"
    by (rule reachable_storeInv [OF faithful_exampleEnv re])
  have f: "blocksByHash s1 (encodeBlock replay2) = Some replay2"
    "blocksByNumber s1 2 = Some replay2" "latestBlockNumber s1 = 2"
    by (simp_all add: s1_def run_putBlock_replay2)
  have "priv_delBlock exampleEnv (encodeBlock replay2) s1 =
          (Inr (), (dropFrom exampleEnv (number (header replay2)) s1)
                     \<lparr>latestBlockNumber := number (header replay2) - 1\<rparr>)"
    by (rule priv_delBlock_drops [OF inv f(1)]) simp
  moreover have "replay2 \<in> blocksFrom s1 2"
    using f by (auto simp: blocksFrom_def)
  then have "raw (Transaction 11) \<in>
               raw ` (\<Union>b \<in> blocksFrom s1 2. set (transactions b))"
    by (intro imageI) (auto intro!: bexI [of _ replay2])
  ultimately show ?thesis
    unfolding s1_def [symmetric] by (simp add: delBlock_def dropFrom_def)
qed

lemma run_getBlock_genesis0:
  "getBlock exampleEnv (BlockNumber 0) oneLocalStore = (Inr genesis0, rootedStore)"
  by (simp add: getBlock_def priv_getBlockByNumber_def
        processRemoteBlock_def processTransactions_def callUpstream_def
        oneLocalStore_def rootedStore_def)

lemma reachable_rootedStore: "reachable exampleEnv rootedStore"
  using reach_getBlock [OF reachable_oneLocalStore, of "BlockNumber 0"]
  by (simp add: run_getBlock_genesis0)

lemma rootedStore_fields [simp]:
  "latestBlockNumber rootedStore = 2"
  "blocksByNumber rootedStore = [1 \<mapsto> base1, 2 \<mapsto> local2, 0 \<mapsto> genesis0]"
  "totalDifficultyByBlockHash rootedStore =
     [encodeBlock base1 \<mapsto> 30, encodeBlock local2 \<mapsto> 37, encodeBlock genesis0 \<mapsto> 10]"
  by (simp_all add: rootedStore_def)

section \<open>Lookups that find nothing\<close>

text \<open>
  The interface \<^verbatim>\<open>PBlockchain\<close> gives \<^verbatim>\<open>getBlock\<close> and \<^verbatim>\<open>getTransaction\<close> the
  result types \<^verbatim>\<open>Block | undefined\<close> and \<^verbatim>\<open>Transaction | undefined\<close>, and the tests
  of the class expect \<^verbatim>\<open>undefined\<close> for a block that does not exist, for a remote
  block newer than the fork block, for an unknown transaction and for a remote
  transaction newer than the fork block. The class \<^verbatim>\<open>ForkBlockchain\<close> throws in each of
  these cases: no path of \<^verbatim>\<open>getBlock\<close> or \<^verbatim>\<open>getTransaction\<close> returns
  \<^verbatim>\<open>undefined\<close>. The three theorems of this section run the class at such inputs;
  the lemmas after them state what the class does there in general.
\<close>

text \<open>
  Claim C4: for every number \<open>n\<close> above the latest block number, \<^verbatim>\<open>getBlock(n)\<close>
  returns absent and makes no upstream call. On a new store forked at height 1, asked
  for block 2, \<^verbatim>\<open>_getBlockByNumber\<close> throws \<^verbatim>\<open>Error("Block not found")\<close>; it makes
  no upstream call and leaves the store as it was.
\<close>

theorem getBlock_beyond_latest_throws:
  "getBlock exampleEnv (BlockNumber 2) (newForkBlockchain exampleEnv) =
     (Inl (Error ''Block not found''), newForkBlockchain exampleEnv)"
  by (simp add: getBlock_def priv_getBlockByNumber_def)

text \<open>
  For every number above the latest block number the call throws that error and
  leaves the store as it was, the list of upstream calls included.
\<close>

lemma getBlock_beyond_latest:
  assumes "latestBlockNumber s < n"
  shows "getBlock env (BlockNumber n) s = (Inl BlockNotFound, s)"
  using assms by (simp add: getBlock_def priv_getBlockByNumber_def)

text \<open>
  Claim C5: when the upstream answers a lookup with a block whose number exceeds the
  fork block number, \<^verbatim>\<open>getBlock\<close> returns absent and installs nothing into any
  index. On a new store forked at height 1, asked by hash for the upstream's block 2,
  \<^verbatim>\<open>_processRemoteBlock\<close> throws \<^verbatim>\<open>Error("Block not found")\<close>; the one upstream call
  is recorded and no index changes.
\<close>

theorem getBlock_past_fork_throws:
  "getBlock exampleEnv (BlockHash (encodeBlock ahead2)) (newForkBlockchain exampleEnv) =
     (Inl (Error ''Block not found''),
      callUpstream (CallGetBlockByHash (encodeBlock ahead2)) (newForkBlockchain exampleEnv))"
  by (simp add: getBlock_def priv_getBlockByHash_def processRemoteBlock_def)

text \<open>
  In every store, reachable or not, when a lookup by hash or by number is not served
  from the cache and the upstream answers it with a block whose number exceeds the
  fork block number, the call throws that error and leaves all five indexes and the
  latest block number as they were: the block is not cached.
\<close>

lemma getBlock_refuses_past_fork:
  assumes "rpcNumber r = Some m" "forkBlockNumber env < m"
  shows "(blocksByHash s h = None \<and> getBlockByHash (jsonRpcClient env) h = RpcResult (Some r) \<longrightarrow>
            fst (getBlock env (BlockHash h) s) = Inl BlockNotFound \<and>
            sameIndexes (snd (getBlock env (BlockHash h) s)) s) \<and>
         (n \<le> latestBlockNumber s \<and> blocksByNumber s n = None \<and>
          getBlockByNumber (jsonRpcClient env) n = RpcResult (Some r) \<longrightarrow>
            fst (getBlock env (BlockNumber n) s) = Inl BlockNotFound \<and>
            sameIndexes (snd (getBlock env (BlockNumber n) s)) s)"
  using assms
  by (auto simp: getBlock_def priv_getBlockByHash_def priv_getBlockByNumber_def
        processRemoteBlock_def split: option.splits)

text \<open>
  Claim C8: for every transaction hash that is not in \<open>txByHash\<close>,
  \<^verbatim>\<open>getTransaction\<close> returns absent when the upstream record is pending or has a
  block number above the fork block number; otherwise it installs the transaction into
  \<open>txByHash\<close> but not into \<open>transactionToBlock\<close>, and returns it. On a new store
  forked at height 1, \<^verbatim>\<open>_processRemoteTransaction\<close> throws
  \<^verbatim>\<open>Error("Transaction not found")\<close> for the pending transaction 99, for
  transaction 21 of the upstream's block 2, and for the unknown transaction 5.
\<close>

theorem getTransaction_not_found_throws:
  "fst (getTransaction exampleEnv 99 (newForkBlockchain exampleEnv)) =
     Inl (Error ''Transaction not found'') \<and>
   fst (getTransaction exampleEnv 21 (newForkBlockchain exampleEnv)) =
     Inl (Error ''Transaction not found'') \<and>
   fst (getTransaction exampleEnv 5 (newForkBlockchain exampleEnv)) =
     Inl (Error ''Transaction not found'')"
  by (simp add: getTransaction_def processRemoteTransaction_def exampleEnv_def
        exampleClient_def asRpcTx_def)

text \<open>
  For every transaction hash \<open>h\<close> that is not in \<open>txByHash\<close>: the call throws that
  error and leaves the indexes as they were when the upstream has no record, a record
  without a block number, or a record whose block number exceeds the fork block
  number; when the record's block number is at most the fork block number, it stores
  the transaction in \<open>txByHash\<close> under the record's hash, changes nothing else but the
  list of upstream calls (\<open>transactionToBlock\<close> in particular), and returns the
  transaction.
\<close>

lemma getTransaction_uncached:
  assumes "txByHash s h = None"
  shows "(getTransactionByHash (jsonRpcClient env) h = RpcResult None \<or>
          (\<exists>r. getTransactionByHash (jsonRpcClient env) h = RpcResult (Some r) \<and>
               (rpcTxBlockNumber r = None \<or>
                (\<exists>n. rpcTxBlockNumber r = Some n \<and> forkBlockNumber env < n))) \<longrightarrow>
            fst (getTransaction env h s) = Inl TransactionNotFound \<and>
            sameIndexes (snd (getTransaction env h s)) s) \<and>
         (\<forall>r n. getTransactionByHash (jsonRpcClient env) h = RpcResult (Some r) \<and>
                rpcTxBlockNumber r = Some n \<and> n \<le> forkBlockNumber env \<longrightarrow>
            getTransaction env h s =
              (Inr (rpcToTx r),
               (callUpstream (CallGetTransactionByHash h) s)
                 \<lparr>txByHash := (txByHash s)(rpcTxHash r \<mapsto> rpcToTx r)\<rparr>))"
  using assms
  by (auto simp: getTransaction_def processRemoteTransaction_def Let_def)

text \<open>The transaction of the fork block is found, stored and returned.\<close>

lemma getTransaction_known_remote:
  "getTransaction exampleEnv 11 (newForkBlockchain exampleEnv) =
     (Inr (Transaction 11),
      (callUpstream (CallGetTransactionByHash 11) (newForkBlockchain exampleEnv))
        \<lparr>txByHash := [11 \<mapsto> Transaction 11]\<rparr>)"
proof -
  have "getTransactionByHash (jsonRpcClient exampleEnv) 11 =
          RpcResult (Some (asRpcTx base1 (Transaction 11)))"
    by (simp add: exampleEnv_def exampleClient_def)
  then show ?thesis
    by (simp add: getTransaction_def processRemoteTransaction_def asRpcTx_def rpcToTx_def
          Let_def callUpstream_def)
qed

section \<open>Appending a block\<close>

text \<open>
  Claim C3: for every block \<open>b\<close>, \<^verbatim>\<open>putBlock(b)\<close> throws "Invalid block number" when
  the number of \<open>b\<close> is not the latest block number plus one, and this check comes
  first; it throws "Invalid parent hash" when the parent hash of \<open>b\<close> is not the hash of
  the latest block; otherwise it raises the latest block number by one, stores \<open>b\<close> in
  \<open>blocksByNumber\<close>, \<open>blocksByHash\<close> and, with the parent's total difficulty plus its
  own difficulty, in \<open>totalDifficultyByBlockHash\<close>, and stores the transactions of
  \<open>b\<close> in \<open>txByHash\<close> and \<open>transactionToBlock\<close>. The latest block is the one that
  \<^verbatim>\<open>getLatestBlock()\<close> finds, and \<open>s1\<close> is the store after that lookup (the lookup
  may have loaded the fork block). The store is any reachable store over a faithful
  upstream.
\<close>

theorem putBlock_contract:
  assumes fu: "faithfulUpstream env" and re: "reachable env s"
  shows "(number (header b) \<noteq> latestBlockNumber s + 1 \<longrightarrow>
            putBlock env b s = (Inl InvalidBlockNumber, s)) \<and>
         (\<forall>p s1. getLatestBlock env s = (Inr p, s1) \<and>
                 number (header b) = latestBlockNumber s + 1 \<and>
                 parentHash (header b) \<noteq> blockHash env p \<longrightarrow>
            putBlock env b s = (Inl InvalidParentHash, s1)) \<and>
         (\<forall>p s1. getLatestBlock env s = (Inr p, s1) \<and>
                 number (header b) = latestBlockNumber s + 1 \<and>
                 parentHash (header b) = blockHash env p \<longrightarrow>
            (\<exists>tp s'. putBlock env b s = (Inr b, s') \<and>
               latestBlockNumber s' = latestBlockNumber s + 1 \<and>
               blocksByNumber s' = (blocksByNumber s1)(latestBlockNumber s + 1 \<mapsto> b) \<and>
               blocksByHash s' = (blocksByHash s1)(blockHash env b \<mapsto> b) \<and>
               totalDifficultyByBlockHash s1 (blockHash env p) = Some tp \<and>
               totalDifficultyByBlockHash s' =
                 (totalDifficultyByBlockHash s1)
                   (blockHash env b \<mapsto> tp + difficulty (header b)) \<and>
               (\<forall>t \<in> set (transactions b).
                  transactionToBlock s' (txHash env t) = Some b \<and>
                  (\<exists>t' \<in> set (transactions b).
                     txHash env t' = txHash env t \<and> txByHash s' (txHash env t) = Some t')) \<and>
               (\<forall>h. h \<notin> txHash env ` set (transactions b) \<longrightarrow>
                  txByHash s' h = txByHash s1 h \<and>
                  transactionToBlock s' h = transactionToBlock s1 h)))"
proof (intro conjI allI impI)
  assume "number (header b) \<noteq> latestBlockNumber s + 1"
  then show "putBlock env b s = (Inl InvalidBlockNumber, s)"
    by (simp add: putBlock_def)
next
  fix p s1
  assume "getLatestBlock env s = (Inr p, s1) \<and>
          number (header b) = latestBlockNumber s + 1 \<and>
          parentHash (header b) \<noteq> blockHash env p"
  then show "putBlock env b s = (Inl InvalidParentHash, s1)"
    by (simp add: putBlock_def)
next
  fix p s1
  assume a: "getLatestBlock env s = (Inr p, s1) \<and>
          number (header b) = latestBlockNumber s + 1 \<and>
          parentHash (header b) = blockHash env p"
  have inv: "storeInv env s" by (rule reachable_storeInv [OF fu re])
  from a putBlock_appends [OF fu inv, of p s1 b] obtain tp where
    tp: "totalDifficultyByBlockHash s1 (blockHash env p) = Some tp"
    and put: "putBlock env b s =
             (Inr b,
              processTransactions env b
                (s1\<lparr>latestBlockNumber := latestBlockNumber s + 1,
                    blocksByNumber := (blocksByNumber s1)(latestBlockNumber s + 1 \<mapsto> b),
                    blocksByHash := (blocksByHash s1)(blockHash env b \<mapsto> b),
                    totalDifficultyByBlockHash :=
                      (totalDifficultyByBlockHash s1)
                        (blockHash env b \<mapsto> tp + difficulty (header b))\<rparr>))" by blast
  define s' where "s' = snd (putBlock env b s)"
  have s': "putBlock env b s = (Inr b, s')" by (simp add: s'_def put)
  have tb: "\<forall>t \<in> set (transactions b).
                  transactionToBlock s' (txHash env t) = Some b \<and>
                  (\<exists>t' \<in> set (transactions b).
                     txHash env t' = txHash env t \<and> txByHash s' (txHash env t) = Some t')"
  proof
    fix t assume t: "t \<in> set (transactions b)"
    then have "txHash env t \<in> txHash env ` set (transactions b)" by simp
    from txByHash_indexTransactions_in [OF this] t
    show "transactionToBlock s' (txHash env t) = Some b \<and>
                  (\<exists>t' \<in> set (transactions b).
                     txHash env t' = txHash env t \<and> txByHash s' (txHash env t) = Some t')"
      by (simp add: s'_def put processTransactions_def transactionToBlock_indexTransactions)
  qed
  have other: "\<forall>h. h \<notin> txHash env ` set (transactions b) \<longrightarrow>
                  txByHash s' h = txByHash s1 h \<and>
                  transactionToBlock s' h = transactionToBlock s1 h"
    by (simp add: s'_def put processTransactions_def transactionToBlock_indexTransactions
          txByHash_indexTransactions_other)
  have "latestBlockNumber s' = latestBlockNumber s + 1 \<and>
        blocksByNumber s' = (blocksByNumber s1)(latestBlockNumber s + 1 \<mapsto> b) \<and>
        blocksByHash s' = (blocksByHash s1)(blockHash env b \<mapsto> b) \<and>
        totalDifficultyByBlockHash s' =
                 (totalDifficultyByBlockHash s1)
                   (blockHash env b \<mapsto> tp + difficulty (header b))"
    by (simp add: s'_def put)
  with s' tp tb other
  show "\<exists>tp s'. putBlock env b s = (Inr b, s') \<and>
               latestBlockNumber s' = latestBlockNumber s + 1 \<and>
               blocksByNumber s' = (blocksByNumber s1)(latestBlockNumber s + 1 \<mapsto> b) \<and>
               blocksByHash s' = (blocksByHash s1)(blockHash env b \<mapsto> b) \<and>
               totalDifficultyByBlockHash s1 (blockHash env p) = Some tp \<and>
               totalDifficultyByBlockHash s' =
                 (totalDifficultyByBlockHash s1)
                   (blockHash env b \<mapsto> tp + difficulty (header b)) \<and>
               (\<forall>t \<in> set (transactions b).
                  transactionToBlock s' (txHash env t) = Some b \<and>
                  (\<exists>t' \<in> set (transactions b).
                     txHash env t' = txHash env t \<and> txByHash s' (txHash env t) = Some t')) \<and>
               (\<forall>h. h \<notin> txHash env ` set (transactions b) \<longrightarrow>
                  txByHash s' h = txByHash s1 h \<and>
                  transactionToBlock s' h = transactionToBlock s1 h)"
    by blast
qed

theorem putBlock_contract_witness:
  "faithfulUpstream exampleEnv \<and> reachable exampleEnv (newForkBlockchain exampleEnv) \<and>
   getLatestBlock exampleEnv (newForkBlockchain exampleEnv) = (Inr base1, forkedStore) \<and>
   number (header local2) = latestBlockNumber (newForkBlockchain exampleEnv) + 1 \<and>
   parentHash (header local2) = blockHash exampleEnv base1 \<and>
   fst (putBlock exampleEnv local2 (newForkBlockchain exampleEnv)) = Inr local2 \<and>
   latestBlockNumber (snd (putBlock exampleEnv local2 (newForkBlockchain exampleEnv))) = 2 \<and>
   blocksByNumber (snd (putBlock exampleEnv local2 (newForkBlockchain exampleEnv))) 2 =
     Some local2 \<and>
   blocksByHash (snd (putBlock exampleEnv local2 (newForkBlockchain exampleEnv)))
     (encodeBlock local2) = Some local2 \<and>
   totalDifficultyByBlockHash (snd (putBlock exampleEnv local2 (newForkBlockchain exampleEnv)))
     (encodeBlock local2) = Some 37 \<and>
   transactionToBlock (snd (putBlock exampleEnv local2 (newForkBlockchain exampleEnv))) 77 =
     Some local2 \<and>
   parentHash (header stray2) \<noteq> blockHash exampleEnv base1 \<and>
   putBlock exampleEnv stray2 (newForkBlockchain exampleEnv) =
     (Inl InvalidParentHash, forkedStore) \<and>
   number (header local3) \<noteq> latestBlockNumber (newForkBlockchain exampleEnv) + 1 \<and>
   putBlock exampleEnv local3 (newForkBlockchain exampleEnv) =
     (Inl InvalidBlockNumber, newForkBlockchain exampleEnv)"
proof -
  let ?s = "newForkBlockchain exampleEnv"
  note T2 = putBlock_contract [OF faithful_exampleEnv reach_new, of local2]
  note Ts = putBlock_contract [OF faithful_exampleEnv reach_new, of stray2]
  note T3 = putBlock_contract [OF faithful_exampleEnv reach_new, of local3]
  have h2: "getLatestBlock exampleEnv ?s = (Inr base1, forkedStore) \<and>
            number (header local2) = latestBlockNumber ?s + 1 \<and>
            parentHash (header local2) = blockHash exampleEnv base1"
    by (simp add: run_getLatestBlock)
  with T2 obtain tp s' where put: "putBlock exampleEnv local2 ?s = (Inr local2, s')"
    and f: "latestBlockNumber s' = latestBlockNumber ?s + 1"
      "blocksByNumber s' = (blocksByNumber forkedStore)(latestBlockNumber ?s + 1 \<mapsto> local2)"
      "blocksByHash s' = (blocksByHash forkedStore)(blockHash exampleEnv local2 \<mapsto> local2)"
      "totalDifficultyByBlockHash forkedStore (blockHash exampleEnv base1) = Some tp"
      "totalDifficultyByBlockHash s' =
         (totalDifficultyByBlockHash forkedStore)
           (blockHash exampleEnv local2 \<mapsto> tp + difficulty (header local2))"
      "\<forall>t \<in> set (transactions local2).
          transactionToBlock s' (txHash exampleEnv t) = Some local2 \<and>
          (\<exists>t' \<in> set (transactions local2).
             txHash exampleEnv t' = txHash exampleEnv t \<and>
             txByHash s' (txHash exampleEnv t) = Some t')"
    by blast
  from f(4) have tp: "tp = 30" by simp
  have c2: "fst (putBlock exampleEnv local2 ?s) = Inr local2 \<and>
     latestBlockNumber (snd (putBlock exampleEnv local2 ?s)) = 2 \<and>
     blocksByNumber (snd (putBlock exampleEnv local2 ?s)) 2 = Some local2 \<and>
     blocksByHash (snd (putBlock exampleEnv local2 ?s)) (encodeBlock local2) = Some local2 \<and>
     totalDifficultyByBlockHash (snd (putBlock exampleEnv local2 ?s)) (encodeBlock local2) =
       Some 37 \<and>
     transactionToBlock (snd (putBlock exampleEnv local2 ?s)) 77 = Some local2"
    using f tp by (simp add: put)
  have hs: "getLatestBlock exampleEnv ?s = (Inr base1, forkedStore) \<and>
            number (header stray2) = latestBlockNumber ?s + 1 \<and>
            parentHash (header stray2) \<noteq> blockHash exampleEnv base1"
    by (simp add: run_getLatestBlock)
  with Ts have cs: "putBlock exampleEnv stray2 ?s = (Inl InvalidParentHash, forkedStore)"
    by blast
  have h3: "number (header local3) \<noteq> latestBlockNumber ?s + 1" by simp
  with T3 have c3: "putBlock exampleEnv local3 ?s = (Inl InvalidBlockNumber, ?s)" by blast
  show ?thesis using faithful_exampleEnv reach_new [of exampleEnv] h2 c2 hs cs h3 c3 by simp
qed

text \<open>
  Claim C10, as stated: when \<^verbatim>\<open>putBlock(b)\<close> throws "Invalid block number" or
  "Invalid parent hash", none of the transactions of \<open>b\<close> is added to \<open>txByHash\<close> or
  \<open>transactionToBlock\<close>, because both checks come before any change of an index. The
  parent check comes after \<^verbatim>\<open>getLatestBlock()\<close>, which on a new store loads the fork
  block and indexes its transactions. Transaction 11 of the rejected block \<open>stray2\<close> is
  also in the fork block:
\<close>

theorem C10_counterexample:
  "fst (putBlock exampleEnv stray2 (newForkBlockchain exampleEnv)) =
     Inl (Error ''Invalid parent hash'') \<and>
   Transaction 11 \<in> set (transactions stray2) \<and>
   txByHash (newForkBlockchain exampleEnv) (txHash exampleEnv (Transaction 11)) = None \<and>
   txByHash (snd (putBlock exampleEnv stray2 (newForkBlockchain exampleEnv)))
     (txHash exampleEnv (Transaction 11)) = Some (Transaction 11) \<and>
   transactionToBlock (newForkBlockchain exampleEnv) (txHash exampleEnv (Transaction 11)) =
     None \<and>
   transactionToBlock (snd (putBlock exampleEnv stray2 (newForkBlockchain exampleEnv)))
     (txHash exampleEnv (Transaction 11)) = Some base1 \<and>
   blocksByNumber (newForkBlockchain exampleEnv) 1 = None \<and>
   blocksByNumber (snd (putBlock exampleEnv stray2 (newForkBlockchain exampleEnv))) 1 =
     Some base1"
  by (simp add: run_putBlock_stray2)

text \<open>
  Claim C10, amended: when \<^verbatim>\<open>putBlock(b)\<close> throws "Invalid block number" the store is
  unchanged; when it throws "Invalid parent hash" the store is the one that
  \<^verbatim>\<open>getLatestBlock()\<close> leaves. In both cases the latest block number is unchanged,
  \<open>b\<close> is added to neither \<open>blocksByNumber\<close> nor \<open>blocksByHash\<close>, no total
  difficulty is recorded for it, and \<open>txByHash\<close> and \<open>transactionToBlock\<close> change
  only at the hashes of the transactions of the latest block, and only when that
  block was not cached and the lookup loaded it. The store is any reachable store over
  a faithful upstream.
\<close>

theorem putBlock_rejection_frame:
  assumes fu: "faithfulUpstream env" and re: "reachable env s"
    and rej: "putBlock env b s = (Inl e, s')"
    and e: "e = InvalidBlockNumber \<or> e = InvalidParentHash"
  shows "(e = InvalidBlockNumber \<longrightarrow> s' = s) \<and>
         (e = InvalidParentHash \<longrightarrow> s' = snd (getLatestBlock env s)) \<and>
         latestBlockNumber s' = latestBlockNumber s \<and>
         (\<forall>n. blocksByNumber s' n = Some b \<longrightarrow> blocksByNumber s n = Some b) \<and>
         (\<forall>h. blocksByHash s' h = Some b \<longrightarrow> blocksByHash s h = Some b) \<and>
         totalDifficultyByBlockHash s' (blockHash env b) =
           totalDifficultyByBlockHash s (blockHash env b) \<and>
         (\<forall>h. txByHash s' h \<noteq> txByHash s h \<or>
              transactionToBlock s' h \<noteq> transactionToBlock s h \<longrightarrow>
              (\<exists>p. fst (getLatestBlock env s) = Inr p \<and>
                   blocksByNumber s (latestBlockNumber s) = None \<and>
                   h \<in> txHash env ` set (transactions p)))"
proof (cases "number (header b) = latestBlockNumber s + 1")
  case False
  with rej have "e = InvalidBlockNumber" "s' = s" by (simp_all add: putBlock_def)
  then show ?thesis by simp
next
  case nb: True
  have inv: "storeInv env s" by (rule reachable_storeInv [OF fu re])
  from fu have inj: "inj (blockHash env)" by (simp add: faithfulUpstream_def)
  obtain res s1 where latest: "getLatestBlock env s = (res, s1)"
    by (cases "getLatestBlock env s")
  show ?thesis
  proof (cases res)
    case (Inl e1)
    with latest getBlock_errors [of env "BlockNumber (latestBlockNumber s)" s e1]
    have "e1 = BlockNotFound \<or> e1 = UpstreamError" by (simp add: getLatestBlock_def)
    moreover from rej nb latest Inl have "e = e1" by (simp add: putBlock_def)
    ultimately show ?thesis using e by auto
  next
    case (Inr p)
    show ?thesis
    proof (cases "parentHash (header b) = blockHash env p")
      case True
      from putBlock_appends [OF fu inv latest [unfolded Inr] nb True] rej
      show ?thesis by auto
    next
      case False
      with rej nb latest Inr have es: "e = InvalidParentHash" "s' = s1"
        by (simp_all add: putBlock_def)
      from latest Inr have g: "getBlock env (BlockNumber (latestBlockNumber s)) s = (Inr p, s1)"
        by (simp add: getLatestBlock_def)
      show ?thesis
      proof (cases rule: getBlock_number_effect [OF fu g, case_names hit load])
        case hit
        with es latest show ?thesis by simp
      next
        case (load r)
        have np: "number (header p) = latestBlockNumber s"
          using load(2,3) by simp
        then have pb: "p \<noteq> b" using nb by auto
        then have hpb: "blockHash env p \<noteq> blockHash env b"
          using inj by (auto simp: inj_def)
        have f1: "latestBlockNumber s1 = latestBlockNumber s"
          "blocksByNumber s1 = (blocksByNumber s)(latestBlockNumber s \<mapsto> p)"
          "blocksByHash s1 = (blocksByHash s)(blockHash env p \<mapsto> p)"
          "totalDifficultyByBlockHash s1 =
             (totalDifficultyByBlockHash s)(blockHash env p \<mapsto> rpcTotalDifficulty r)"
          by (simp_all add: load(6))
        have tx: "\<And>h. h \<notin> txHash env ` set (transactions p) \<Longrightarrow>
                   txByHash s1 h = txByHash s h \<and>
                   transactionToBlock s1 h = transactionToBlock s h"
          by (simp add: load(6) processTransactions_def txByHash_indexTransactions_other
                transactionToBlock_indexTransactions)
        have "\<forall>h. txByHash s1 h \<noteq> txByHash s h \<or>
              transactionToBlock s1 h \<noteq> transactionToBlock s h \<longrightarrow>
              (\<exists>p. fst (getLatestBlock env s) = Inr p \<and>
                   blocksByNumber s (latestBlockNumber s) = None \<and>
                   h \<in> txHash env ` set (transactions p))"
          using tx latest Inr load(1) by auto
        moreover have "\<forall>n. blocksByNumber s1 n = Some b \<longrightarrow> blocksByNumber s n = Some b"
          using pb by (auto simp: f1 split: if_splits)
        moreover have "\<forall>h. blocksByHash s1 h = Some b \<longrightarrow> blocksByHash s h = Some b"
          using pb by (auto simp: f1 split: if_splits)
        moreover have "totalDifficultyByBlockHash s1 (blockHash env b) =
           totalDifficultyByBlockHash s (blockHash env b)"
          using hpb by (simp add: f1)
        ultimately show ?thesis using es latest f1(1) by simp
      qed
    qed
  qed
qed

theorem putBlock_rejection_frame_witness:
  "faithfulUpstream exampleEnv \<and> reachable exampleEnv (newForkBlockchain exampleEnv) \<and>
   putBlock exampleEnv stray2 (newForkBlockchain exampleEnv) =
     (Inl InvalidParentHash, forkedStore) \<and>
   forkedStore = snd (getLatestBlock exampleEnv (newForkBlockchain exampleEnv)) \<and>
   latestBlockNumber forkedStore = latestBlockNumber (newForkBlockchain exampleEnv) \<and>
   totalDifficultyByBlockHash forkedStore (blockHash exampleEnv stray2) =
     totalDifficultyByBlockHash (newForkBlockchain exampleEnv) (blockHash exampleEnv stray2) \<and>
   putBlock exampleEnv local3 (newForkBlockchain exampleEnv) =
     (Inl InvalidBlockNumber, newForkBlockchain exampleEnv)"
proof -
  let ?s = "newForkBlockchain exampleEnv"
  have rej: "putBlock exampleEnv stray2 ?s = (Inl InvalidParentHash, forkedStore)"
    by (rule run_putBlock_stray2)
  have e: "InvalidParentHash = InvalidBlockNumber \<or> InvalidParentHash = InvalidParentHash"
    by simp
  from putBlock_rejection_frame [OF faithful_exampleEnv reach_new rej e]
  have c: "forkedStore = snd (getLatestBlock exampleEnv ?s) \<and>
           latestBlockNumber forkedStore = latestBlockNumber ?s \<and>
           totalDifficultyByBlockHash forkedStore (blockHash exampleEnv stray2) =
             totalDifficultyByBlockHash ?s (blockHash exampleEnv stray2)"
    by blast
  show ?thesis
    using faithful_exampleEnv reach_new [of exampleEnv] rej c run_putBlock_local3_early
    by simp
qed

section \<open>Deleting blocks\<close>






text \<open>
  When the latest block is already cached by number and no hash of a transaction of
  \<open>b\<close> is a key of \<open>txByHash\<close> or \<open>transactionToBlock\<close>, appending a block \<open>b\<close>
  that extends the latest block and deleting it by its hash gives back the store as it
  was.
\<close>

lemma append_then_delete_cached:
  assumes fu: "faithfulUpstream env" and re: "reachable env s"
    and cached: "blocksByNumber s (latestBlockNumber s) = Some p"
    and nb: "number (header b) = latestBlockNumber s + 1"
    and ph: "parentHash (header b) = blockHash env p"
    and fresh: "\<forall>t \<in> set (transactions b).
                  txByHash s (txHash env t) = None \<and>
                  transactionToBlock s (txHash env t) = None"
  shows "\<exists>s1. putBlock env b s = (Inr b, s1) \<and>
              delBlock env (blockHash env b) s1 = (Inr (), s)"
proof -
  let ?L = "latestBlockNumber s"
  let ?hb = "blockHash env b"
  have inv: "storeInv env s" by (rule reachable_storeInv [OF fu re])
  from fu have inj: "inj (blockHash env)" by (simp add: faithfulUpstream_def)
  have latest: "getLatestBlock env s = (Inr p, s)"
    using cached by (simp add: getLatestBlock_def getBlock_def priv_getBlockByNumber_def)
  from putBlock_appends [OF fu inv latest nb ph] obtain tp where
    put: "putBlock env b s =
             (Inr b,
              processTransactions env b
                (s\<lparr>latestBlockNumber := ?L + 1,
                    blocksByNumber := (blocksByNumber s)(?L + 1 \<mapsto> b),
                    blocksByHash := (blocksByHash s)(?hb \<mapsto> b),
                    totalDifficultyByBlockHash :=
                      (totalDifficultyByBlockHash s)(?hb \<mapsto> tp + difficulty (header b))\<rparr>))"
    by blast
  define s1 where "s1 = snd (putBlock env b s)"
  have s1: "putBlock env b s = (Inr b, s1)" by (simp add: s1_def put)
  have inv1: "storeInv env s1" unfolding s1_def by (rule storeInv_putBlock [OF fu inv])
  have f1: "latestBlockNumber s1 = ?L + 1"
    "blocksByNumber s1 = (blocksByNumber s)(?L + 1 \<mapsto> b)"
    "blocksByHash s1 = (blocksByHash s)(?hb \<mapsto> b)"
    "totalDifficultyByBlockHash s1 =
       (totalDifficultyByBlockHash s)(?hb \<mapsto> tp + difficulty (header b))"
    "upstreamCalls s1 = upstreamCalls s"
    "forkBlockchain.more s1 = forkBlockchain.more s"
    by (simp_all add: s1_def put processTransactions_def)
  have tx1: "\<And>h. txByHash s1 h =
               (if h \<in> txHash env ` set (transactions b) then txByHash s1 h else txByHash s h)"
    and tb1: "\<And>h. transactionToBlock s1 h =
               (if h \<in> txHash env ` set (transactions b) then Some b
                else transactionToBlock s h)"
    by (simp_all add: s1_def put processTransactions_def txByHash_indexTransactions_other
          transactionToBlock_indexTransactions)
  have F: "forkBlockNumber env < number (header b)"
    using storeInvD(1) [OF inv] nb by simp
  have vacant: "blocksByNumber s (?L + 1) = None"
  proof (rule ccontr)
    assume "blocksByNumber s (?L + 1) \<noteq> None"
    then obtain q where "blocksByNumber s (?L + 1) = Some q" by auto
    from storeInvD(2) [OF inv this] show False by simp
  qed
  have nohash: "blocksByHash s ?hb = None"
  proof (rule ccontr)
    assume "blocksByHash s ?hb \<noteq> None"
    then obtain q where q: "blocksByHash s ?hb = Some q" by auto
    from storeInvD(3) [OF inv q] inj have "q = b" by (auto simp: inj_def)
    with storeInvD(3) [OF inv q] have "blocksByNumber s (number (header b)) = Some b" by simp
    with vacant nb show False by simp
  qed
  have notd: "totalDifficultyByBlockHash s ?hb = None"
  proof (rule ccontr)
    assume "totalDifficultyByBlockHash s ?hb \<noteq> None"
    from storeInvD(7) [OF inv this] nohash show False by simp
  qed
  have bf: "blocksFrom s1 (?L + 1) = {b}"
    by (auto simp: blocksFrom_def f1)
  have del: "delBlock env ?hb s1 =
               (Inr (), (dropFrom env (number (header b)) s1)
                          \<lparr>latestBlockNumber := number (header b) - 1\<rparr>)"
    unfolding delBlock_def by (rule priv_delBlock_drops [OF inv1 _ F]) (simp add: f1)
  have "(dropFrom env (?L + 1) s1)\<lparr>latestBlockNumber := ?L\<rparr> = s"
  proof (rule forkBlockchain.equality)
    show "blocksByNumber ((dropFrom env (?L + 1) s1)\<lparr>latestBlockNumber := ?L\<rparr>) =
          blocksByNumber s"
      using vacant by (auto simp: dropFrom_def f1 fun_eq_iff)
    show "blocksByHash ((dropFrom env (?L + 1) s1)\<lparr>latestBlockNumber := ?L\<rparr>) =
          blocksByHash s"
      using nohash by (auto simp: dropFrom_def f1 bf [simplified] fun_eq_iff)
    show "totalDifficultyByBlockHash ((dropFrom env (?L + 1) s1)\<lparr>latestBlockNumber := ?L\<rparr>) =
          totalDifficultyByBlockHash s"
      using notd by (auto simp: dropFrom_def f1 bf [simplified] fun_eq_iff)
    show "txByHash ((dropFrom env (?L + 1) s1)\<lparr>latestBlockNumber := ?L\<rparr>) = txByHash s"
    proof
      fix h
      show "txByHash ((dropFrom env (?L + 1) s1)\<lparr>latestBlockNumber := ?L\<rparr>) h = txByHash s h"
        using fresh tx1 [of h] by (auto simp: dropFrom_def bf [simplified])
    qed
    show "transactionToBlock ((dropFrom env (?L + 1) s1)\<lparr>latestBlockNumber := ?L\<rparr>) =
          transactionToBlock s"
    proof
      fix h
      show "transactionToBlock ((dropFrom env (?L + 1) s1)\<lparr>latestBlockNumber := ?L\<rparr>) h =
            transactionToBlock s h"
        using fresh tb1 [of h] by (auto simp: dropFrom_def bf [simplified])
    qed
    show "latestBlockNumber ((dropFrom env (?L + 1) s1)\<lparr>latestBlockNumber := ?L\<rparr>) =
          latestBlockNumber s" by simp
    show "upstreamCalls ((dropFrom env (?L + 1) s1)\<lparr>latestBlockNumber := ?L\<rparr>) =
          upstreamCalls s" by (simp add: dropFrom_def f1)
    show "forkBlockchain.more ((dropFrom env (?L + 1) s1)\<lparr>latestBlockNumber := ?L\<rparr>) =
          forkBlockchain.more s" by (simp add: dropFrom_def f1)
  qed
  with del nb have "delBlock env ?hb s1 = (Inr (), s)" by simp
  with s1 show ?thesis by blast
qed



section \<open>Total difficulty\<close>



text \<open>
  Claim C7: every block \<open>b\<close> with a total difficulty in
  \<open>totalDifficultyByBlockHash\<close> is the block cached at its height \<open>n\<close>; at height 0
  its total difficulty is its own difficulty; at a height \<open>n > 0\<close> its total
  difficulty is the total difficulty of the block at \<open>n - 1\<close> in \<open>blocksByNumber\<close>
  plus its own difficulty, whenever that block is cached, and above the fork block
  number it always is. This holds in every reachable store, over a faithful upstream
  whose totals add up.
\<close>

theorem totalDifficulty_adds_up:
  assumes fu: "faithfulUpstream env" and ct: "consistentTotals env"
    and re: "reachable env s"
  shows "\<forall>b t. totalDifficultyByBlockHash s (blockHash env b) = Some t \<longrightarrow>
           blocksByNumber s (number (header b)) = Some b \<and>
           (number (header b) = 0 \<longrightarrow> t = difficulty (header b)) \<and>
           (forkBlockNumber env < number (header b) \<longrightarrow>
              blocksByNumber s (number (header b) - 1) \<noteq> None) \<and>
           (\<forall>p. 0 < number (header b) \<and>
                blocksByNumber s (number (header b) - 1) = Some p \<longrightarrow>
                (\<exists>tp. totalDifficultyByBlockHash s (blockHash env p) = Some tp \<and>
                      t = tp + difficulty (header b)))"
proof (intro allI impI)
  fix b t
  assume t: "totalDifficultyByBlockHash s (blockHash env b) = Some t"
  let ?n = "number (header b)"
  have inv: "storeInv env s" by (rule reachable_storeInv [OF fu re])
  from fu have inj: "inj (blockHash env)" by (simp add: faithfulUpstream_def)
  from t have "totalDifficultyByBlockHash s (blockHash env b) \<noteq> None" by simp
  from storeInvD(7) [OF inv this] obtain q where q: "blocksByHash s (blockHash env b) = Some q"
    by auto
  from storeInvD(3) [OF inv q] inj have "q = b" by (auto simp: inj_def)
  with storeInvD(3) [OF inv q] have bn: "blocksByNumber s ?n = Some b" by simp
  have zero: "t = difficulty (header b)" if z: "?n = 0"
  proof -
    from z have "?n \<le> forkBlockNumber env" by simp
    from storeInvD(5) [OF inv bn this] obtain r where
      r: "getBlockByNumber (jsonRpcClient env) ?n = RpcResult (Some r)" "rpcToBlock r = b"
         "totalDifficultyByBlockHash s (blockHash env b) = Some (rpcTotalDifficulty r)"
      by blast
    from ct r(1) z have "rpcTotalDifficulty r = rpcDifficulty r"
      by (simp add: consistentTotals_def)
    with r(2,3) t show ?thesis by (auto simp: rpcToBlock_def)
  qed
  have par: "blocksByNumber s (?n - 1) \<noteq> None" if "forkBlockNumber env < ?n"
    using storeInvD(6) [OF inv bn that] by auto
  have add: "\<exists>tp. totalDifficultyByBlockHash s (blockHash env p) = Some tp \<and>
                  t = tp + difficulty (header b)"
    if pos: "0 < ?n" and p: "blocksByNumber s (?n - 1) = Some p" for p
  proof (cases "?n \<le> forkBlockNumber env")
    case True
    from storeInvD(5) [OF inv bn True] obtain r where
      r: "getBlockByNumber (jsonRpcClient env) ?n = RpcResult (Some r)" "rpcToBlock r = b"
         "totalDifficultyByBlockHash s (blockHash env b) = Some (rpcTotalDifficulty r)"
      by blast
    from True have "?n - 1 \<le> forkBlockNumber env" by simp
    from storeInvD(5) [OF inv p this] obtain r' where
      r': "getBlockByNumber (jsonRpcClient env) (?n - 1) = RpcResult (Some r')"
          "totalDifficultyByBlockHash s (blockHash env p) = Some (rpcTotalDifficulty r')"
      by blast
    from pos have S: "Suc (?n - 1) = ?n" by simp
    from ct have "\<And>n r q. Suc n \<le> forkBlockNumber env \<Longrightarrow>
          getBlockByNumber (jsonRpcClient env) (Suc n) = RpcResult (Some r) \<Longrightarrow>
          getBlockByNumber (jsonRpcClient env) n = RpcResult (Some q) \<Longrightarrow>
          rpcTotalDifficulty r = rpcTotalDifficulty q + rpcDifficulty r"
      unfolding consistentTotals_def by blast
    from this [of "?n - 1" r r'] S True r(1) r'(1)
    have "rpcTotalDifficulty r = rpcTotalDifficulty r' + rpcDifficulty r" by simp
    moreover from r(2) have "difficulty (header b) = rpcDifficulty r"
      by (auto simp: rpcToBlock_def)
    ultimately show ?thesis using r(3) r'(2) t by simp
  next
    case False
    then have "forkBlockNumber env < ?n" by simp
    from storeInvD(6) [OF inv bn this] p t show ?thesis by auto
  qed
  from bn zero par add
  show "blocksByNumber s ?n = Some b \<and>
           (?n = 0 \<longrightarrow> t = difficulty (header b)) \<and>
           (forkBlockNumber env < ?n \<longrightarrow> blocksByNumber s (?n - 1) \<noteq> None) \<and>
           (\<forall>p. 0 < ?n \<and> blocksByNumber s (?n - 1) = Some p \<longrightarrow>
                (\<exists>tp. totalDifficultyByBlockHash s (blockHash env p) = Some tp \<and>
                      t = tp + difficulty (header b)))"
    by blast
qed

theorem totalDifficulty_adds_up_witness:
  "faithfulUpstream exampleEnv \<and> consistentTotals exampleEnv \<and>
   reachable exampleEnv rootedStore \<and>
   totalDifficultyByBlockHash rootedStore (blockHash exampleEnv genesis0) = Some 10 \<and>
   number (header genesis0) = 0 \<and>
   blocksByNumber rootedStore (number (header genesis0)) = Some genesis0 \<and>
   10 = difficulty (header genesis0) \<and>
   totalDifficultyByBlockHash rootedStore (blockHash exampleEnv base1) = Some 30 \<and>
   0 < number (header base1) \<and>
   blocksByNumber rootedStore (number (header base1) - 1) = Some genesis0 \<and>
   30 = 10 + difficulty (header base1) \<and>
   totalDifficultyByBlockHash rootedStore (blockHash exampleEnv local2) = Some 37 \<and>
   forkBlockNumber exampleEnv < number (header local2) \<and>
   blocksByNumber rootedStore (number (header local2) - 1) = Some base1 \<and>
   37 = 30 + difficulty (header local2)"
proof -
  note T = totalDifficulty_adds_up
             [OF faithful_exampleEnv consistent_exampleEnv reachable_rootedStore]
  have g: "totalDifficultyByBlockHash rootedStore (blockHash exampleEnv genesis0) = Some 10"
    "number (header genesis0) = 0" by simp_all
  with T have g1: "blocksByNumber rootedStore (number (header genesis0)) = Some genesis0"
    and g2: "10 = difficulty (header genesis0)" by blast+
  have b: "totalDifficultyByBlockHash rootedStore (blockHash exampleEnv base1) = Some 30"
    "0 < number (header base1)"
    "blocksByNumber rootedStore (number (header base1) - 1) = Some genesis0" by simp_all
  with T obtain tp where
    "totalDifficultyByBlockHash rootedStore (blockHash exampleEnv genesis0) = Some tp"
    "30 = tp + difficulty (header base1)" by blast
  with g(1) have b1: "30 = 10 + difficulty (header base1)" by simp
  have l: "totalDifficultyByBlockHash rootedStore (blockHash exampleEnv local2) = Some 37"
    "forkBlockNumber exampleEnv < number (header local2)"
    "blocksByNumber rootedStore (number (header local2) - 1) = Some base1" by simp_all
  then have "0 < number (header local2)" by simp
  with T l obtain tq where
    "totalDifficultyByBlockHash rootedStore (blockHash exampleEnv base1) = Some tq"
    "37 = tq + difficulty (header local2)" by blast
  with b(1) have l1: "37 = 30 + difficulty (header local2)" by simp
  from faithful_exampleEnv consistent_exampleEnv reachable_rootedStore g g1 g2 b b1 l l1
  show ?thesis by blast
qed

end
